theory Spec2Isabelle
  imports Complex_Main "HOL-Library.Word"
begin

unbundle bit_operations_syntax

section \<open>Machine types\<close>

text \<open>
  \<open>uint32_t\<close> values that are computed with (node ids, class indices, feature buckets)
  are 32-bit words, so that \<open>class_index - 1\<close> wraps as it does in C++. Sizes, loop
  counters and vector indices (\<open>size_t\<close>) are natural numbers; where the source
  subtracts from one, the 64-bit wrap-around is written out (\<open>size_t_sub\<close>).
\<close>

type_synonym u32 = "32 word"
type_synonym u8 = "8 word"

definition size_t_sub :: "nat \<Rightarrow> nat \<Rightarrow> nat" where
  "size_t_sub a b = (if b \<le> a then a - b else a + 2 ^ 64 - b)"

subsection \<open>Single precision floating point\<close>

text \<open>
  A \<open>float\<close> is modelled by the real number it denotes. Every arithmetic operation
  computes the exact result and rounds it to the nearest binary32 value, ties to even
  (\<open>fl32\<close>): 24 significant bits, the exponent of the leading bit between -126 and 127
  (below that the spacing stays \<open>2 ^ -149\<close>, the subnormal numbers). Infinities and NaN
  are not values of the model: \<open>fl32\<close> is the result of the source for an exact result
  in the range of \<open>float\<close> (\<open>float_finite\<close> below), and where the source overflows to an
  infinity \<open>fl32\<close> is a finite number that is not the result of the source. Counters
  and the scores of \<open>macro_f\<close> stay in the range; values computed from feature values
  need not, and statements about them carry the hypothesis that they do. The one
  place of this file that can produce a NaN from finite counters, the final division
  of \<open>macro_f\<close>, is modelled with an explicit result.
\<close>

type_synonym float = real

primrec expo_search :: "nat \<Rightarrow> real \<Rightarrow> int" where
  "expo_search 0 a = - 126"
| "expo_search (Suc n) a =
     (if 2 powi (int (Suc n) - 126) \<le> a then int (Suc n) - 126 else expo_search n a)"

definition round_even :: "real \<Rightarrow> int" where
  "round_even q =
     (let f = \<lfloor>q\<rfloor>; r = q - of_int f
      in if r < 1 / 2 then f else if 1 / 2 < r then f + 1 else if even f then f else f + 1)"

definition fl32 :: "real \<Rightarrow> float" where
  "fl32 a = (let u = 2 powi (expo_search 253 \<bar>a\<bar> - 23) in of_int (round_even (a / u)) * u)"

definition fadd :: "float \<Rightarrow> float \<Rightarrow> float" where
  "fadd a b = fl32 (a + b)"

definition fsub :: "float \<Rightarrow> float \<Rightarrow> float" where
  "fsub a b = fl32 (a - b)"

definition fmul :: "float \<Rightarrow> float \<Rightarrow> float" where
  "fmul a b = fl32 (a * b)"

definition fdiv :: "float \<Rightarrow> float \<Rightarrow> float" where
  "fdiv a b = fl32 (a / b)"

definition float_of_nat :: "nat \<Rightarrow> float" where
  "float_of_nat n = fl32 (real n)"

text \<open>
  The largest \<open>float\<close>, and the real numbers that rounding to nearest takes to a finite
  \<open>float\<close>: those below \<open>2 ^ 128 - 2 ^ 103\<close> in absolute value, half a unit in the last
  place above the largest \<open>float\<close>. From there on the result of an operation of the
  source is an infinity, which \<open>fl32\<close> does not follow.
\<close>

definition float_max :: real where
  "float_max = 2 ^ 128 - 2 ^ 104"

definition float_finite :: "real \<Rightarrow> bool" where
  "float_finite a \<longleftrightarrow> \<bar>a\<bar> < 2 ^ 128 - 2 ^ 103"

section \<open>Errors and loops that can fail\<close>

text \<open>
  The first four errors are the \<open>throw exception()\<close> sites of the file. \<open>OutOfBounds\<close>
  stands for an access outside a vector or array (undefined behaviour in C++),
  \<open>DivisionByZero\<close> for an integer division by zero, and \<open>NoProgress\<close> for the one
  state in which the outer loop of \<open>run_bfs\<close> would spin without changing anything.
\<close>

datatype error =
    NodeAfterEdge
  | EdgesWithoutNodes
  | NodeIdTooLarge
  | Eek
  | OutOfBounds
  | DivisionByZero
  | NoProgress

definition is_fatal :: "error \<Rightarrow> bool" where
  "is_fatal e = (e = NodeAfterEdge \<or> e = EdgesWithoutNodes \<or> e = NodeIdTooLarge \<or> e = Eek)"

text \<open>A \<open>for\<close> loop over a collection whose body may fail: the first failure ends it.\<close>

primrec foldE :: "('a \<Rightarrow> 's \<Rightarrow> error + 's) \<Rightarrow> 'a list \<Rightarrow> 's \<Rightarrow> error + 's" where
  "foldE f [] s = Inr s"
| "foldE f (a # as) s = (case f a s of Inl e \<Rightarrow> Inl e | Inr s' \<Rightarrow> foldE f as s')"

section \<open>Data model\<close>

text \<open>
  An example carries its cost-sensitive label \<open>l.cs.costs\<close>, of which this file reads
  the \<open>class_index\<close> of every entry only, and its features: the active namespaces
  \<open>indices\<close>, the 256 feature arrays \<open>atomics\<close> of (value, bucket) pairs with their
  sums of squares, and the two totals.
\<close>

type_synonym feature = "float \<times> u32"

record example =
  costs :: "u32 list"
  indices :: "u8 list"
  atomics :: "u8 \<Rightarrow> feature list"
  sum_feat_sq :: "u8 \<Rightarrow> float"
  total_sum_feat_sq :: float
  num_features :: "64 word"

text \<open>
  \<open>task_data\<close>, field by field. \<open>cur_node\<close> is the index in \<open>ec\<close> of the example the
  pointer of the source refers to; \<open>weight_vector\<close> is never read and left out.
\<close>

record task_data =
  num_loops :: nat
  K :: nat
  use_structure :: bool
  separate_learners :: bool
  mask_td :: nat
  multiplier :: nat
  ss :: nat
  wpp :: nat
  N :: u32
  E :: u32
  adj :: "nat list list"
  bfs :: "u32 list"
  pred :: "nat list"
  cur_node :: nat
  neighbor_predictions :: "float list"
  confusion_matrix :: "u32 list"
  true_counts :: "float list"
  true_counts_total :: float

text \<open>
  What the file reads of the host (\<open>sch.get_vw_pointer_unsafe()\<close> and the constants
  and templates of headers that are not part of it): the weight mask, \<open>wpp\<close> and the
  stride shift, the configured namespace pairs (each string given by its first two
  characters), whether \<open>char\<close> is a signed type on the platform, the constant
  \<open>neighbor_namespace\<close>, and \<open>GD::foreach_feature\<close>, given by the (value, bucket) pairs
  it hands to its callback for an example, in order.
\<close>

record vw =
  weight_mask :: nat
  vw_wpp :: nat
  stride_shift :: nat
  pairs :: "(u8 \<times> u8) list"
  char_signed :: bool
  neighbor_namespace :: u8
  foreach_feature :: "example \<Rightarrow> feature list"

section \<open>Initialization\<close>

record options =
  search_graph_num_loops :: "nat option"
  search_graph_no_structure :: bool
  search_graph_separate_learners :: bool

text \<open>
  \<open>new task_data()\<close> value-initialises the structure: numbers are zero, flags false and
  vectors empty until \<open>initialize\<close> or \<open>setup\<close> assigns them.
\<close>

definition new_task_data :: task_data where
  "new_task_data =
     \<lparr>num_loops = 0, K = 0, use_structure = False, separate_learners = False, mask_td = 0,
      multiplier = 0, ss = 0, wpp = 0, N = 0, E = 0, adj = [], bfs = [], pred = [],
      cur_node = 0, neighbor_predictions = [], confusion_matrix = [], true_counts = [],
      true_counts_total = 0\<rparr>"

text \<open>
  \<open>initialize\<close> returns the task data and the argument of \<open>sch.set_num_learners\<close> when
  that is called.
\<close>

definition initialize :: "options \<Rightarrow> nat \<Rightarrow> task_data \<times> nat option" where
  "initialize vm num_actions =
     (let D0 = new_task_data\<lparr>num_loops := 2, use_structure := True\<rparr>;
          D1 = (case search_graph_num_loops vm of Some v \<Rightarrow> D0\<lparr>num_loops := v\<rparr> | None \<Rightarrow> D0);
          D2 = (if search_graph_no_structure vm then D1\<lparr>use_structure := False\<rparr> else D1);
          D3 = (if search_graph_separate_learners vm then D2\<lparr>separate_learners := True\<rparr> else D2);
          D4 = (if num_loops D3 \<le> 1 then D3\<lparr>num_loops := 1, separate_learners := False\<rparr> else D3);
          D5 = D4\<lparr>K := num_actions,
                  neighbor_predictions := replicate (num_actions + 1) 0,
                  confusion_matrix := replicate ((num_actions + 1) * (num_actions + 1)) 0,
                  true_counts := replicate (num_actions + 1) 1,
                  true_counts_total := float_of_nat (num_actions + 1)\<rparr>
      in (D5, if separate_learners D5 then Some (num_loops D5) else None))"

section \<open>Episode setup\<close>

definition example_is_test :: "example \<Rightarrow> bool" where
  "example_is_test e = (length (costs e) = 0)"

definition example_is_edge :: "example \<Rightarrow> bool" where
  "example_is_edge e = (1 < length (costs e))"

subsection \<open>The traversal order\<close>

text \<open>
  The body of the two innermost loops of \<open>run_bfs\<close>: \<open>m = class_index - 1\<close> in 32-bit
  arithmetic, then the test and the update of \<open>touched[m]\<close>. The state is the pair of
  \<open>D.bfs\<close> and \<open>touched\<close>.
\<close>

definition visit :: "u32 \<Rightarrow> u32 list \<times> bool list \<Rightarrow> error + (u32 list \<times> bool list)" where
  "visit ci s =
     (let m = ci - 1
      in if length (snd s) \<le> unat m then Inl OutOfBounds
         else if \<not> snd s ! unat m then Inr (fst s @ [m], (snd s)[unat m := True])
         else Inr s)"

definition expand ::
  "nat list list \<Rightarrow> example list \<Rightarrow> u32 \<Rightarrow> u32 list \<times> bool list \<Rightarrow> error + (u32 list \<times> bool list)" where
  "expand a ec n s =
     (if length a \<le> unat n then Inl OutOfBounds
      else foldE (\<lambda>i s'. if length ec \<le> i then Inl OutOfBounds else foldE visit (costs (ec ! i)) s')
             (a ! unat n) s)"

definition untouched :: "bool list \<Rightarrow> nat" where
  "untouched t = length (filter Not t)"

lemma untouched_update:
  "k < length t \<Longrightarrow> \<not> t ! k \<Longrightarrow> untouched (t[k := True]) + 1 = untouched t"
proof (induction t arbitrary: k)
  case Nil
  then show ?case by simp
next
  case (Cons b t)
  show ?case
  proof (cases k)
    case 0
    with Cons.prems show ?thesis by (simp add: untouched_def)
  next
    case (Suc j)
    with Cons.prems have "untouched (t[j := True]) + 1 = untouched t"
      by (intro Cons.IH) simp_all
    with Suc show ?thesis by (simp add: untouched_def)
  qed
qed

lemma visit_untouched:
  assumes "visit ci s = Inr s'"
  shows "untouched (snd s') + length (fst s') = untouched (snd s) + length (fst s)
         \<and> length (snd s') = length (snd s) \<and> length (fst s) \<le> length (fst s')"
proof (cases "\<not> snd s ! unat (ci - 1)")
  case True
  from assms have lt: "unat (ci - 1) < length (snd s)"
    by (auto simp: visit_def Let_def split: if_splits)
  from assms True lt have s': "s' = (fst s @ [ci - 1], (snd s)[unat (ci - 1) := True])"
    by (auto simp: visit_def Let_def split: if_splits)
  from untouched_update [OF lt True] s' show ?thesis by simp
next
  case False
  with assms have "s' = s" by (auto simp: visit_def Let_def split: if_splits)
  then show ?thesis by simp
qed

lemma foldE_visit_untouched:
  "foldE visit cs s = Inr s' \<Longrightarrow>
     untouched (snd s') + length (fst s') = untouched (snd s) + length (fst s)
     \<and> length (snd s') = length (snd s) \<and> length (fst s) \<le> length (fst s')"
proof (induction cs arbitrary: s)
  case Nil
  then show ?case by simp
next
  case (Cons c cs)
  then obtain s1 where s1: "visit c s = Inr s1" and rest: "foldE visit cs s1 = Inr s'"
    by (auto split: sum.splits)
  from visit_untouched [OF s1] Cons.IH [OF rest] show ?case by simp
qed

lemma expand_untouched:
  assumes "expand a ec n s = Inr s'"
  shows "untouched (snd s') + length (fst s') = untouched (snd s) + length (fst s)
         \<and> length (snd s') = length (snd s) \<and> length (fst s) \<le> length (fst s')"
proof -
  have gen: "foldE (\<lambda>i s'. if length ec \<le> i then Inl OutOfBounds else foldE visit (costs (ec ! i)) s') is s = Inr s'
      \<Longrightarrow> untouched (snd s') + length (fst s') = untouched (snd s) + length (fst s)
          \<and> length (snd s') = length (snd s) \<and> length (fst s) \<le> length (fst s')" for "is" s s'
  proof (induction "is" arbitrary: s)
    case Nil
    then show ?case by simp
  next
    case (Cons i "is")
    then obtain s1 where s1: "foldE visit (costs (ec ! i)) s = Inr s1"
      and rest: "foldE (\<lambda>i s'. if length ec \<le> i then Inl OutOfBounds else foldE visit (costs (ec ! i)) s') is s1 = Inr s'"
      by (auto split: sum.splits if_splits)
    from foldE_visit_untouched [OF s1] Cons.IH [OF rest] show ?case by simp
  qed
  from assms show ?thesis
    by (auto simp: expand_def split: if_splits dest: gen)
qed

text \<open>
  The inner \<open>while (i < D.bfs.size())\<close>: it returns the final \<open>i\<close> with the state. It
  terminates because every push marks a node that was untouched.
\<close>

function bfs_inner ::
  "nat list list \<Rightarrow> example list \<Rightarrow> nat \<Rightarrow> u32 list \<times> bool list
     \<Rightarrow> error + (nat \<times> u32 list \<times> bool list)" where
  "bfs_inner a ec i s =
     (if i < length (fst s)
      then (case expand a ec (fst s ! i) s of
              Inl e \<Rightarrow> Inl e
            | Inr s' \<Rightarrow> bfs_inner a ec (i + 1) s')
      else Inr (i, s))"
  by pat_completeness auto
termination
proof (relation "measure (\<lambda>(a, ec, i, s). 2 * untouched (snd s) + length (fst s) - i)", goal_cases)
  case 1
  then show ?case by simp
next
  case (2 a ec i s s')
  from expand_untouched [OF 2(2)] 2(1) show ?case by auto
qed

lemma bfs_inner_untouched:
  "bfs_inner a ec i s = Inr (i', s') \<Longrightarrow>
     untouched (snd s') \<le> untouched (snd s) \<and> length (snd s') = length (snd s)"
proof (induction a ec i s rule: bfs_inner.induct)
  case (1 a ec i s)
  show ?case
  proof (cases "i < length (fst s)")
    case True
    with "1.prems" obtain s1 where s1: "expand a ec (fst s ! i) s = Inr s1"
      and rest: "bfs_inner a ec (i + 1) s1 = Inr (i', s')"
      by (auto split: sum.splits)
    from expand_untouched [OF s1] "1.IH" [OF True s1 rest] show ?thesis by auto
  next
    case False
    with "1.prems" show ?thesis by simp
  qed
qed

text \<open>
  The search for the next seed, \<open>for (uint32_t n=0; n<D.N; n++) if (! touched[n])\<close>:
  the first untouched index among those given, if there is one.
\<close>

primrec first_untouched :: "nat list \<Rightarrow> bool list \<Rightarrow> error + nat option" where
  "first_untouched [] t = Inr None"
| "first_untouched (n # ns) t =
     (if length t \<le> n then Inl OutOfBounds
      else if \<not> t ! n then Inr (Some n)
      else first_untouched ns t)"

lemma first_untouched_Some:
  "first_untouched ns t = Inr (Some n) \<Longrightarrow> n \<in> set ns \<and> n < length t \<and> \<not> t ! n"
  by (induction ns) (auto split: if_splits)

text \<open>
  The outer \<open>while (D.bfs.size() < D.N)\<close> with \<open>nn = D.N\<close>. When the order is still
  short after the inner loop and no untouched node is left, nothing changes from one
  iteration to the next and the loop of the source never ends: \<open>NoProgress\<close>.
\<close>

function bfs_outer ::
  "nat list list \<Rightarrow> example list \<Rightarrow> nat \<Rightarrow> nat \<Rightarrow> u32 list \<times> bool list
     \<Rightarrow> error + (u32 list \<times> bool list)" where
  "bfs_outer a ec nn i s =
     (if length (fst s) < nn
      then (case bfs_inner a ec i s of
              Inl e \<Rightarrow> Inl e
            | Inr (i', s') \<Rightarrow>
                if length (fst s') < nn
                then (case first_untouched [0..<nn] (snd s') of
                        Inl e \<Rightarrow> Inl e
                      | Inr None \<Rightarrow> Inl NoProgress
                      | Inr (Some n) \<Rightarrow>
                          bfs_outer a ec nn i' (fst s' @ [word_of_nat n], (snd s')[n := True]))
                else Inr s')
      else Inr s)"
  by pat_completeness auto
termination
proof (relation "measure (\<lambda>(a, ec, nn, i, s). untouched (snd s))", goal_cases)
  case 1
  then show ?case by simp
next
  case (2 a ec nn i s x2 i' s' x2a n)
  then have fu: "first_untouched [0..<nn] (snd s') = Inr (Some n)"
    and bi: "bfs_inner a ec i s = Inr (i', s')"
    by simp_all
  from first_untouched_Some [OF fu] have "untouched ((snd s')[n := True]) + 1 = untouched (snd s')"
    by (intro untouched_update) simp_all
  moreover from bfs_inner_untouched [OF bi]
  have "untouched (snd s') \<le> untouched (snd s)" by simp
  ultimately show ?case by simp
qed

definition run_bfs :: "task_data \<Rightarrow> example list \<Rightarrow> error + task_data" where
  "run_bfs D ec =
     (let touched = replicate (unat (N D)) False
      in if length touched = 0 then Inl OutOfBounds
         else (case bfs_outer (adj D) ec (unat (N D)) 0 ([0], touched[0 := True]) of
                 Inl e \<Rightarrow> Inl e
               | Inr s \<Rightarrow> Inr (D\<lparr>bfs := fst s\<rparr>)))"

subsection \<open>The graph\<close>

text \<open>
  The first loop of \<open>setup\<close>, over all examples: it counts edges and nodes in the
  32-bit counters \<open>D.E\<close> and \<open>D.N\<close>, rejects a node that comes after an edge, and
  adds a labelled node to the label counts.
\<close>

primrec count_records :: "example list \<Rightarrow> task_data \<Rightarrow> error + task_data" where
  "count_records [] D = Inr D"
| "count_records (e # es) D =
     (if example_is_edge e then count_records es (D\<lparr>E := E D + 1\<rparr>)
      else if 0 < E D then Inl NodeAfterEdge
      else if 0 < length (costs e)
      then (let c = unat (costs e ! 0)
            in if length (true_counts D) \<le> c then Inl OutOfBounds
               else count_records es
                      (D\<lparr>N := N D + 1,
                         true_counts := (true_counts D)[c := fadd (true_counts D ! c) 1],
                         true_counts_total := fadd (true_counts_total D) 1\<rparr>))
      else count_records es (D\<lparr>N := N D + 1\<rparr>))"

text \<open>
  The second loop, for the example at index \<open>i\<close>: first every referenced id is
  compared with \<open>D.N\<close>, then \<open>i\<close> is appended to the adjacency list of every
  referenced node unless it is the last entry already. \<open>nn = class_index - 1\<close> is
  computed in 32 bits before it is widened.
\<close>

definition add_adj :: "nat \<Rightarrow> u32 \<Rightarrow> nat list list \<Rightarrow> error + nat list list" where
  "add_adj i ci a =
     (let nn = unat (ci - 1)
      in if length a \<le> nn then Inl OutOfBounds
         else if length (a ! nn) = 0 \<or> (a ! nn) ! (length (a ! nn) - 1) \<noteq> i
         then Inr (a[nn := a ! nn @ [i]])
         else Inr a)"

definition edge_step :: "u32 \<Rightarrow> example list \<Rightarrow> nat \<Rightarrow> nat list list \<Rightarrow> error + nat list list" where
  "edge_step n ec i a =
     (if list_ex (\<lambda>ci. n < ci) (costs (ec ! i)) then Inl NodeIdTooLarge
      else foldE (add_adj i) (costs (ec ! i)) a)"

text \<open>The assignments at the head of \<open>setup\<close>; \<open>D.wpp << D.ss\<close> is a \<open>size_t\<close>.\<close>

definition setup_globals :: "vw \<Rightarrow> task_data \<Rightarrow> task_data" where
  "setup_globals all D =
     D\<lparr>mask_td := weight_mask all, wpp := vw_wpp all, ss := stride_shift all,
       multiplier := (vw_wpp all * 2 ^ stride_shift all) mod 2 ^ 64,
       N := 0, E := 0\<rparr>"

definition setup_task :: "vw \<Rightarrow> task_data \<Rightarrow> example list \<Rightarrow> error + task_data" where
  "setup_task all D ec =
     (case count_records ec (setup_globals all D) of
        Inl e \<Rightarrow> Inl e
      | Inr D2 \<Rightarrow>
          if N D2 = 0 \<and> 0 < E D2 then Inl EdgesWithoutNodes
          else (case foldE (edge_step (N D2) ec) [unat (N D2)..<length ec]
                       (replicate (unat (N D2)) []) of
                  Inl e \<Rightarrow> Inl e
                | Inr a \<Rightarrow>
                    (case run_bfs (D2\<lparr>adj := a\<rparr>) ec of
                       Inl e \<Rightarrow> Inl e
                     | Inr D3 \<Rightarrow> Inr (D3\<lparr>pred := replicate (unat (N D3)) (K D3 + 1)\<rparr>))))"

text \<open>
  \<open>setup\<close> writes the task data in place, so what it has written stays when it throws.
  \<open>foldS\<close> is the loop that keeps the state of the moment its body fails, and
  \<open>count_state\<close> the first loop of \<open>setup\<close> in that form; \<open>outcome\<close> forgets the state
  of a failure.
\<close>

primrec foldS :: "('a \<Rightarrow> 's \<Rightarrow> error + 's) \<Rightarrow> 'a list \<Rightarrow> 's \<Rightarrow> 's \<times> error option" where
  "foldS f [] s = (s, None)"
| "foldS f (a # as) s = (case f a s of Inl e \<Rightarrow> (s, Some e) | Inr s' \<Rightarrow> foldS f as s')"

primrec count_state :: "example list \<Rightarrow> task_data \<Rightarrow> task_data \<times> error option" where
  "count_state [] D = (D, None)"
| "count_state (e # es) D =
     (if example_is_edge e then count_state es (D\<lparr>E := E D + 1\<rparr>)
      else if 0 < E D then (D, Some NodeAfterEdge)
      else if 0 < length (costs e)
      then (let c = unat (costs e ! 0)
            in if length (true_counts D) \<le> c then (D\<lparr>N := N D + 1\<rparr>, Some OutOfBounds)
               else count_state es
                      (D\<lparr>N := N D + 1,
                         true_counts := (true_counts D)[c := fadd (true_counts D ! c) 1],
                         true_counts_total := fadd (true_counts_total D) 1\<rparr>))
      else count_state es (D\<lparr>N := N D + 1\<rparr>))"

definition outcome :: "'s \<times> error option \<Rightarrow> error + 's" where
  "outcome r = (case snd r of None \<Rightarrow> Inr (fst r) | Some e \<Rightarrow> Inl e)"

text \<open>
  \<open>setup\<close> with the task data it leaves: \<open>D.adj\<close> is assigned after the first loop and
  the test for edges without nodes, and filled edge by edge; an edge with an id greater
  than \<open>D.N\<close> throws before any of its ids is appended. \<open>run_bfs\<close> and the loop that
  fills \<open>D.pred\<close> come last.
\<close>

definition setup_state :: "vw \<Rightarrow> task_data \<Rightarrow> example list \<Rightarrow> task_data \<times> error option" where
  "setup_state all D ec =
     (case count_state ec (setup_globals all D) of
        (D2, Some e) \<Rightarrow> (D2, Some e)
      | (D2, None) \<Rightarrow>
          if N D2 = 0 \<and> 0 < E D2 then (D2, Some EdgesWithoutNodes)
          else (case foldS (edge_step (N D2) ec) [unat (N D2)..<length ec]
                       (replicate (unat (N D2)) []) of
                  (a, Some e) \<Rightarrow> (D2\<lparr>adj := a\<rparr>, Some e)
                | (a, None) \<Rightarrow>
                    (case run_bfs (D2\<lparr>adj := a\<rparr>) ec of
                       Inl e \<Rightarrow> (D2\<lparr>adj := a\<rparr>, Some e)
                     | Inr D3 \<Rightarrow> (D3\<lparr>pred := replicate (unat (N D3)) (K D3 + 1)\<rparr>, None))))"

definition takedown :: "task_data \<Rightarrow> task_data" where
  "takedown D = D\<lparr>bfs := [], pred := [], adj := []\<rparr>"

section \<open>Feature augmentation\<close>

text \<open>
  The bucket of an injected feature: \<open>fx2 = fx / D.multiplier\<close>, then
  \<open>(uint32_t)((fx2 + 348919043 * k) * D.multiplier) & (uint32_t)D.mask\<close>. The sum and
  the product are computed in \<open>size_t\<close>; their wrap at \<open>2 ^ 64\<close> disappears in the cast
  to 32 bits, which \<open>word_of_nat\<close> performs.
\<close>

definition bucket :: "task_data \<Rightarrow> u32 \<Rightarrow> nat \<Rightarrow> u32" where
  "bucket D fx k =
     word_of_nat ((unat fx div multiplier D + 348919043 * k) * multiplier D)
       AND word_of_nat (mask_td D)"

definition push_neighbor :: "vw \<Rightarrow> feature \<Rightarrow> example \<Rightarrow> example" where
  "push_neighbor all f node =
     node\<lparr>atomics := (atomics node)
               (neighbor_namespace all := atomics node (neighbor_namespace all) @ [f]),
          sum_feat_sq := (sum_feat_sq node)
               (neighbor_namespace all :=
                  fadd (sum_feat_sq node (neighbor_namespace all)) (fmul (fst f) (fst f)))\<rparr>"

definition add_edge_features_group_fn ::
  "vw \<Rightarrow> task_data \<Rightarrow> feature \<Rightarrow> example \<Rightarrow> error + example" where
  "add_edge_features_group_fn all D f node =
     (if multiplier D = 0 then Inl DivisionByZero
      else if (unat (snd f) div multiplier D) * multiplier D \<noteq> unat (snd f) then Inl Eek
      else foldE (\<lambda>k nd.
                    if length (neighbor_predictions D) \<le> k then Inl OutOfBounds
                    else if neighbor_predictions D ! k = 0 then Inr nd
                    else Inr (push_neighbor all
                                (fmul (fst f) (neighbor_predictions D ! k), bucket D (snd f) k) nd))
             [0..<K D + 1] node)"

definition add_edge_features_single_fn ::
  "vw \<Rightarrow> task_data \<Rightarrow> feature \<Rightarrow> example \<Rightarrow> error + example" where
  "add_edge_features_single_fn all D f node =
     (if multiplier D = 0 then Inl DivisionByZero
      else if (unat (snd f) div multiplier D) * multiplier D \<noteq> unat (snd f) then Inl Eek
      else if length (neighbor_predictions D) = 0 then Inl OutOfBounds
      else Inr (push_neighbor all
                  (fst f, bucket D (snd f) (nat \<lfloor>neighbor_predictions D ! 0\<rfloor>)) node))"

text \<open>
  The histogram of one edge. The state is \<open>D.neighbor_predictions\<close>, \<open>pred_total\<close> and
  \<open>last_pred\<close>; \<open>count_neighbor\<close> is the body of the loop over the endpoints of the edge
  (with structure), \<open>m = class_index - 1\<close> in 32 bits and \<open>D.pred[m]-1\<close> in \<open>size_t\<close>.
\<close>

definition count_neighbor ::
  "task_data \<Rightarrow> u32 \<Rightarrow> u32 \<Rightarrow> float list \<times> float \<times> u32 \<Rightarrow> error + (float list \<times> float \<times> u32)" where
  "count_neighbor D n ci h =
     (let m = unat (ci - 1)
      in if m = unat n then Inr h
         else if length (pred D) \<le> m then Inl OutOfBounds
         else (let p = size_t_sub (pred D ! m) 1
               in if length (fst h) \<le> p then Inl OutOfBounds
                  else Inr ((fst h)[p := fadd (fst h ! p) 1], fadd (fst (snd h)) 1, word_of_nat p)))"

definition histogram ::
  "task_data \<Rightarrow> u32 \<Rightarrow> example \<Rightarrow> error + (float list \<times> float \<times> u32)" where
  "histogram D n edge =
     (if length (neighbor_predictions D) < K D + 1 then Inl OutOfBounds
      else (let np = replicate (K D + 1) 0 @ drop (K D + 1) (neighbor_predictions D)
            in if use_structure D then foldE (count_neighbor D n) (costs edge) (np, 0, 0)
               else Inr (np[0 := fadd (np ! 0) 1], fadd 0 1, 0)))"

text \<open>
  One iteration of the loop over \<open>D.adj[n]\<close> in \<open>add_edge_features\<close>, for the edge
  example with index \<open>i\<close>. The state is the task data (its \<open>neighbor_predictions\<close> are
  overwritten) and the examples, of which \<open>ec[n]\<close> is the node that \<open>D.cur_node\<close>
  points to.
\<close>

definition add_edge ::
  "vw \<Rightarrow> u32 \<Rightarrow> nat \<Rightarrow> task_data \<times> example list \<Rightarrow> error + (task_data \<times> example list)" where
  "add_edge all n i st =
     (let D = fst st; ec = snd st
      in if length ec \<le> i then Inl OutOfBounds
         else (case histogram D n (ec ! i) of
                 Inl e \<Rightarrow> Inl e
               | Inr h \<Rightarrow>
                   (let D1 = D\<lparr>neighbor_predictions := fst h\<rparr>
                    in if fst (snd h) = 0 then Inr (D1, ec)
                       else if fst (snd h) \<le> 1
                       then (let D2 = D1\<lparr>neighbor_predictions :=
                                          (fst h)[0 := float_of_nat (unat (snd (snd h)))]\<rparr>
                             in case foldE (add_edge_features_single_fn all D2)
                                       (foreach_feature all (ec ! i)) (ec ! cur_node D2) of
                                  Inl e \<Rightarrow> Inl e
                                | Inr node \<Rightarrow> Inr (D2, ec[cur_node D2 := node]))
                       else (case foldE (add_edge_features_group_fn all D1)
                                     (foreach_feature all (ec ! i)) (ec ! cur_node D1) of
                               Inl e \<Rightarrow> Inl e
                             | Inr node \<Rightarrow> Inr (D1, ec[cur_node D1 := node])))))"

text \<open>
  \<open>(int)(*i)[0]\<close>: a character of a pair string as an \<open>int\<close>, and the array element
  that an \<open>int\<close> index selects among the 256 namespaces.
\<close>

definition char_to_int :: "vw \<Rightarrow> u8 \<Rightarrow> int" where
  "char_to_int all c = (if char_signed all then sint c else uint c)"

definition add_pair :: "vw \<Rightarrow> u8 \<times> u8 \<Rightarrow> example \<Rightarrow> error + example" where
  "add_pair all p node =
     (let i0 = char_to_int all (fst p); i1 = char_to_int all (snd p)
      in if i0 = uint (neighbor_namespace all) \<or> i1 = uint (neighbor_namespace all)
         then (if i0 < 0 \<or> 256 \<le> i0 \<or> i1 < 0 \<or> 256 \<le> i1 then Inl OutOfBounds
               else Inr (node\<lparr>num_features := num_features node
                                 + word_of_nat (length (atomics node (word_of_int i0))
                                                * length (atomics node (word_of_int i1))),
                              total_sum_feat_sq := fadd (total_sum_feat_sq node)
                                 (fmul (sum_feat_sq node (word_of_int i0))
                                       (sum_feat_sq node (word_of_int i1)))\<rparr>))
         else Inr node)"

definition add_edge_features ::
  "vw \<Rightarrow> task_data \<Rightarrow> u32 \<Rightarrow> example list \<Rightarrow> error + (task_data \<times> example list)" where
  "add_edge_features all D n ec =
     (if length ec \<le> unat n \<or> length (adj D) \<le> unat n then Inl OutOfBounds
      else (case foldE (add_edge all n) (adj D ! unat n) (D\<lparr>cur_node := unat n\<rparr>, ec) of
              Inl e \<Rightarrow> Inl e
            | Inr st \<Rightarrow>
                (let node = snd st ! unat n;
                     node1 = node\<lparr>indices := indices node @ [neighbor_namespace all],
                                  total_sum_feat_sq := fadd (total_sum_feat_sq node)
                                     (sum_feat_sq node (neighbor_namespace all)),
                                  num_features := num_features node
                                     + word_of_nat (length (atomics node (neighbor_namespace all)))\<rparr>
                 in case foldE (add_pair all) (pairs all) node1 of
                      Inl e \<Rightarrow> Inl e
                    | Inr node2 \<Rightarrow> Inr (fst st, (snd st)[unat n := node2]))))"

definition del_edge_features ::
  "vw \<Rightarrow> task_data \<Rightarrow> u32 \<Rightarrow> example list \<Rightarrow> error + example list" where
  "del_edge_features all D n ec =
     (if length ec \<le> unat n then Inl OutOfBounds
      else (let node = ec ! unat n
            in if length (indices node) = 0 then Inl OutOfBounds
               else Inr (ec[unat n :=
                      node\<lparr>indices := butlast (indices node),
                           total_sum_feat_sq := fsub (total_sum_feat_sq node)
                              (sum_feat_sq node (neighbor_namespace all)),
                           num_features := num_features node
                              - word_of_nat (length (atomics node (neighbor_namespace all))),
                           atomics := (atomics node)(neighbor_namespace all := []),
                           sum_feat_sq := (sum_feat_sq node)(neighbor_namespace all := 0)\<rparr>])))"

section \<open>The metric\<close>

definition IDX :: "task_data \<Rightarrow> nat \<Rightarrow> nat \<Rightarrow> nat" where
  "IDX D i j = i * (K D + 1) + j"

text \<open>
  The inner loop of \<open>macro_f\<close> for label \<open>k\<close>, with the state \<open>(trueC, predC)\<close>, and the
  body of the outer loop, with the state \<open>(total_f1, count_f1)\<close>. The result of
  \<open>macro_f\<close> is \<open>None\<close> when \<open>count_f1\<close> is zero: the source then divides zero by
  zero, which is not a number.
\<close>

definition macro_f_sums :: "task_data \<Rightarrow> nat \<Rightarrow> nat \<Rightarrow> float \<times> float \<Rightarrow> error + (float \<times> float)" where
  "macro_f_sums D k j tp =
     (if length (confusion_matrix D) \<le> IDX D k j \<or> length (confusion_matrix D) \<le> IDX D j k
      then Inl OutOfBounds
      else Inr (fadd (fst tp) (float_of_nat (unat (confusion_matrix D ! IDX D k j))),
                fadd (snd tp) (float_of_nat (unat (confusion_matrix D ! IDX D j k)))))"

definition macro_f_label :: "task_data \<Rightarrow> nat \<Rightarrow> float \<times> float \<Rightarrow> error + (float \<times> float)" where
  "macro_f_label D k tc =
     (case foldE (macro_f_sums D k) [1..<K D + 1] (0, 0) of
        Inl e \<Rightarrow> Inl e
      | Inr tp \<Rightarrow>
          if fst tp = 0 then Inr tc
          else if length (confusion_matrix D) \<le> IDX D k k then Inl OutOfBounds
          else (let correctC = float_of_nat (unat (confusion_matrix D ! IDX D k k));
                    count_f1 = fadd (snd tc) 1
                in if 0 < correctC
                   then (let pre = fdiv correctC (snd tp);
                             rec = fdiv correctC (fst tp)
                         in Inr (fadd (fst tc) (fdiv (fmul (fmul 2 pre) rec) (fadd pre rec)),
                                 count_f1))
                   else Inr (fst tc, count_f1)))"

definition macro_f :: "task_data \<Rightarrow> error + float option" where
  "macro_f D =
     (case foldE (macro_f_label D) [1..<K D + 1] (0, 0) of
        Inl e \<Rightarrow> Inl e
      | Inr tc \<Rightarrow> Inr (if snd tc = 0 then None else Some (fdiv (fst tc) (snd tc))))"

section \<open>The inference loop\<close>

text \<open>
  What one \<open>Search::predictor\<close> is given before \<open>predict()\<close> is called on it: the tag
  \<open>n+1\<close>, the input example, the learner id and the oracle label when they are set,
  and the conditioning references in the order they are added.
\<close>

record request =
  tag :: u32
  input_example :: example
  learner_id :: "nat option"
  oracle_label :: "u32 option"
  conditions :: "(u32 \<times> char) list"

text \<open>
  The two answers of the host that \<open>run\<close> asks for, each as a function of the number
  of predictions made before in this run: \<open>sch.predictNeedsExample()\<close>, and the action
  \<open>P.predict()\<close> returns for a request.
\<close>

record search =
  predictNeedsExample :: "nat \<Rightarrow> bool"
  predict :: "nat \<Rightarrow> request \<Rightarrow> u32"

text \<open>
  The conditioning loop of \<open>run\<close>: \<open>i\<close> runs over \<open>0 .. D.adj[n].size()-1\<close> and the
  costs read are those of \<open>ec[i]\<close>.
\<close>

definition condition_on :: "u32 \<Rightarrow> u32 list \<Rightarrow> (u32 \<times> char) list" where
  "condition_on n cs = map (\<lambda>ci. (ci - 1 + 1, CHR ''e'')) (filter (\<lambda>ci. ci - 1 \<noteq> n) cs)"

definition add_conditions ::
  "task_data \<Rightarrow> example list \<Rightarrow> u32 \<Rightarrow> error + (u32 \<times> char) list" where
  "add_conditions D ec n =
     foldE (\<lambda>i cs. if length ec \<le> i then Inl OutOfBounds
                     else Inr (cs @ condition_on n (costs (ec ! i))))
       [0..<length (adj D ! unat n)] []"

text \<open>
  The body of the loop over \<open>n_id\<close> for the node \<open>n = D.bfs[n_id]\<close>. The state is the
  task data, the examples and the requests predicted so far. The weight \<open>w\<close> of a
  labelled node is computed and dropped; what remains of it are its reads of
  \<open>D.true_counts\<close>.
\<close>

definition predict_node ::
  "vw \<Rightarrow> search \<Rightarrow> nat \<Rightarrow> u32 \<Rightarrow> task_data \<times> example list \<times> request list
     \<Rightarrow> error + (task_data \<times> example list \<times> request list)" where
  "predict_node all sch loop n st =
     (let D = fst st; ec = fst (snd st); reqs = snd (snd st)
      in if length ec \<le> unat n then Inl OutOfBounds
         else (let k = (if 0 < length (costs (ec ! unat n)) then costs (ec ! unat n) ! 0 else 0);
                   add_features = predictNeedsExample sch (length reqs)
               in case (if add_features then add_edge_features all D n ec else Inr (D, ec)) of
                    Inl e \<Rightarrow> Inl e
                  | Inr (D1, ec1) \<Rightarrow>
                      if 0 < k \<and> length (true_counts D1) \<le> max (K D1) (unat k)
                      then Inl OutOfBounds
                      else if length (adj D1) \<le> unat n then Inl OutOfBounds
                      else (case add_conditions D1 ec1 n of
                              Inl e \<Rightarrow> Inl e
                            | Inr cs \<Rightarrow>
                                (let P = \<lparr>tag = n + 1, input_example = ec1 ! unat n,
                                          learner_id = (if separate_learners D1 then Some loop else None),
                                          oracle_label = (if 0 < k then Some k else None),
                                          conditions = cs\<rparr>
                                 in if length (pred D1) \<le> unat n then Inl OutOfBounds
                                    else (let D2 = D1\<lparr>pred := (pred D1)
                                                      [unat n := unat (predict sch (length reqs) P)]\<rparr>
                                          in case (if add_features then del_edge_features all D2 n ec1
                                                   else Inr ec1) of
                                               Inl e \<Rightarrow> Inl e
                                             | Inr ec2 \<Rightarrow> Inr (D2, ec2, reqs @ [P]))))))"

text \<open>
  \<open>for (int n_id = start; n_id != end; n_id += step)\<close> with \<open>step\<close> 1 (forward) or -1,
  over the order \<open>D.bfs\<close>, which no pass changes. Reading \<open>D.bfs[n_id]\<close> outside the
  order ends the loop.
\<close>

function pass_loop ::
  "(u32 \<Rightarrow> 's \<Rightarrow> error + 's) \<Rightarrow> u32 list \<Rightarrow> bool \<Rightarrow> int \<Rightarrow> int \<Rightarrow> 's \<Rightarrow> error + 's" where
  "pass_loop body order forward n_id end_id s =
     (if n_id = end_id then Inr s
      else if n_id < 0 \<or> int (length order) \<le> n_id then Inl OutOfBounds
      else (case body (order ! nat n_id) s of
              Inl e \<Rightarrow> Inl e
            | Inr s' \<Rightarrow> pass_loop body order forward (n_id + (if forward then 1 else - 1)) end_id s'))"
  by pat_completeness auto
termination
  by (relation "measure (\<lambda>(body, order, forward, n_id, end_id, s).
        if forward then nat (int (length order) - n_id) else nat (n_id + 1))") auto

text \<open>
  One pass: \<open>start = 0\<close>, \<open>end = D.N\<close>, \<open>step = 1\<close>, and on odd loops
  \<open>start = D.N-1\<close> (computed in 32 bits), \<open>end = -1\<close>, \<open>step = -1\<close>; the conversions to
  \<open>int\<close> keep the low 32 bits.
\<close>

definition run_pass ::
  "vw \<Rightarrow> search \<Rightarrow> nat \<Rightarrow> task_data \<times> example list \<times> request list
     \<Rightarrow> error + (task_data \<times> example list \<times> request list)" where
  "run_pass all sch loop st =
     (if loop mod 2 = 1
      then pass_loop (predict_node all sch loop) (bfs (fst st)) False (sint (N (fst st) - 1)) (- 1) st
      else pass_loop (predict_node all sch loop) (bfs (fst st)) True 0 (sint (N (fst st))) st)"

text \<open>The loop that fills the confusion matrix after the passes, for node \<open>n\<close>.\<close>

definition count_confusion :: "example list \<Rightarrow> nat \<Rightarrow> task_data \<Rightarrow> error + task_data" where
  "count_confusion ec n D =
     (if length ec \<le> n \<or> length (pred D) \<le> n then Inl OutOfBounds
      else if length (costs (ec ! n)) = 0 then Inl OutOfBounds
      else (let c = IDX D (unat (costs (ec ! n) ! 0)) (pred D ! n)
            in if length (confusion_matrix D) \<le> c then Inl OutOfBounds
               else Inr (D\<lparr>confusion_matrix :=
                            (confusion_matrix D)[c := confusion_matrix D ! c + 1]\<rparr>)))"

text \<open>
  The head of \<open>run\<close>: the \<open>memset\<close> of the confusion matrix and the reset of
  \<open>D.pred[0 .. N-1]\<close> to \<open>D.K+1\<close>.
\<close>

definition run_reset :: "task_data \<Rightarrow> error + task_data" where
  "run_reset D =
     (let K_squared = (K D + 1) * (K D + 1)
      in if length (confusion_matrix D) < K_squared \<or> length (pred D) < unat (N D)
         then Inl OutOfBounds
         else Inr (D\<lparr>confusion_matrix := replicate K_squared 0 @ drop K_squared (confusion_matrix D),
                      pred := replicate (unat (N D)) (K D + 1) @ drop (unat (N D)) (pred D)\<rparr>))"

text \<open>
  The passes of \<open>run\<close>, up to the end of the loop over \<open>loop\<close>: they return the task
  data, the examples and the requests in the order they were predicted.
\<close>

definition run_passes ::
  "vw \<Rightarrow> search \<Rightarrow> task_data \<Rightarrow> example list
     \<Rightarrow> error + (task_data \<times> example list \<times> request list)" where
  "run_passes all sch D ec =
     (case run_reset D of
        Inl e \<Rightarrow> Inl e
      | Inr D1 \<Rightarrow> foldE (run_pass all sch) [0..<num_loops D1] (D1, ec, []))"

text \<open>
  \<open>run\<close> returns the task data, the examples, the requests and the loss passed to
  \<open>sch.loss\<close> (\<open>None\<close> when it is not a number). The predictions written to
  \<open>sch.output()\<close> are \<open>D.pred\<close> of the result.
\<close>

definition run ::
  "vw \<Rightarrow> search \<Rightarrow> task_data \<Rightarrow> example list
     \<Rightarrow> error + (task_data \<times> example list \<times> request list \<times> float option)" where
  "run all sch D ec =
     (case run_passes all sch D ec of
        Inl e \<Rightarrow> Inl e
      | Inr (D2, ec2, reqs) \<Rightarrow>
          (case foldE (count_confusion ec2) [0..<unat (N D2)] D2 of
             Inl e \<Rightarrow> Inl e
           | Inr D3 \<Rightarrow>
               (case macro_f D3 of
                  Inl e \<Rightarrow> Inl e
                | Inr m \<Rightarrow> Inr (D3, ec2, reqs, map_option (fsub 1) m))))"

declare bfs_inner.simps [simp del] bfs_outer.simps [simp del] pass_loop.simps [simp del]

section \<open>Rounding\<close>

text \<open>
  Natural numbers below \<open>2 ^ 24\<close> are binary32 values, so counting in a \<open>float\<close> is
  exact up to there, and the conversion of a positive integer is positive.
\<close>

lemma expo_search_less: "a < 2 powi k \<Longrightarrow> - 126 < k \<Longrightarrow> expo_search n a < k"
proof (induction n)
  case 0
  then show ?case by simp
next
  case (Suc n)
  show ?case
  proof (cases "2 powi (int (Suc n) - 126) \<le> a")
    case True
    with Suc.prems have lt: "(2::real) powi (int (Suc n) - 126) < 2 powi k" by simp
    have "int (Suc n) - 126 < k"
    proof (rule ccontr)
      assume "\<not> int (Suc n) - 126 < k"
      then have "(2::real) powi k \<le> 2 powi (int (Suc n) - 126)"
        by (intro power_int_increasing) simp_all
      with lt show False by simp
    qed
    with True show ?thesis by simp
  next
    case False
    with Suc show ?thesis by simp
  qed
qed

lemma expo_search_low: "expo_search n a = - 126 \<or> 2 powi (expo_search n a) \<le> a"
  by (induction n) auto

lemma round_even_of_int: "round_even (of_int z) = z"
  by (simp add: round_even_def)

lemma round_even_ge_floor: "\<lfloor>q\<rfloor> \<le> round_even q"
  by (simp add: round_even_def Let_def)

lemma fl32_nat_exact:
  assumes "n < 2 ^ 24"
  shows "fl32 (real n) = real n"
proof -
  define e where "e = expo_search 253 (real n)"
  have "real n < 2 ^ 24" using assms by (metis of_nat_less_iff of_nat_numeral of_nat_power)
  then have "real n < 2 powi 24" by simp
  then have e: "e < 24" unfolding e_def by (intro expo_search_less) simp_all
  define d where "d = nat (23 - e)"
  have u: "(2::real) powi (e - 23) = 1 / 2 ^ d"
    using e by (simp add: d_def power_int_def field_simps)
  have "real n / (1 / 2 ^ d) = of_int (int (n * 2 ^ d))" by simp
  then have "round_even (real n / (1 / 2 ^ d)) = int (n * 2 ^ d)"
    by (simp only: round_even_of_int)
  then show ?thesis
    by (simp add: fl32_def Let_def e_def [symmetric] u)
qed

lemma fl32_nat_pos:
  assumes "0 < n"
  shows "0 < fl32 (real n)"
proof -
  define e where "e = expo_search 253 (real n)"
  define u :: real where "u = 2 powi (e - 23)"
  have upos: "0 < u" by (simp add: u_def)
  have a1: "1 \<le> real n" using assms by simp
  have "u \<le> real n"
  proof (cases "e = - 126")
    case True
    then have "u = 2 powi (- 149)" by (simp add: u_def)
    also have "\<dots> \<le> 1" by (simp add: power_int_def field_simps)
    finally show ?thesis using a1 by simp
  next
    case False
    with expo_search_low [of 253 "real n"] have "2 powi e \<le> real n" by (simp add: e_def)
    moreover have "u \<le> 2 powi e" unfolding u_def by (intro power_int_increasing) simp_all
    ultimately show ?thesis by simp
  qed
  then have "1 \<le> real n / u" using upos by (simp add: field_simps)
  then have "1 \<le> \<lfloor>real n / u\<rfloor>" by linarith
  with round_even_ge_floor [of "real n / u"] have "1 \<le> round_even (real n / u)" by linarith
  then have "0 < real_of_int (round_even (real n / u)) * u" using upos by simp
  then show ?thesis by (simp add: fl32_def Let_def e_def [symmetric] u_def [symmetric])
qed

lemma expo_search_ge: "2 powi e \<le> a \<Longrightarrow> - 126 \<le> e \<Longrightarrow> e \<le> int n - 126 \<Longrightarrow> e \<le> expo_search n a"
proof (induction n)
  case 0
  then show ?case by simp
next
  case (Suc n)
  show ?case
  proof (cases "2 powi (int (Suc n) - 126) \<le> a")
    case True
    with Suc.prems show ?thesis by simp
  next
    case False
    with Suc.prems(1) have "e \<noteq> int (Suc n) - 126" by auto
    with Suc.prems have "e \<le> int n - 126" by simp
    with Suc False show ?thesis by simp
  qed
qed

lemma fl32_binade:
  assumes "2 powi e \<le> \<bar>a\<bar>" and "\<bar>a\<bar> < 2 powi (e + 1)" and "- 126 \<le> e" and "e \<le> 127"
  shows "fl32 a = of_int (round_even (a / 2 powi (e - 23))) * 2 powi (e - 23)"
proof -
  from assms(2,3) have "expo_search 253 \<bar>a\<bar> < e + 1" by (intro expo_search_less) simp_all
  moreover from assms(1,3,4) have "e \<le> expo_search 253 \<bar>a\<bar>" by (intro expo_search_ge) simp_all
  ultimately have "expo_search 253 \<bar>a\<bar> = e" by simp
  then show ?thesis by (simp add: fl32_def Let_def)
qed


lemma fl32_0: "fl32 0 = 0"
  by (simp add: fl32_def round_even_def)

lemma fl32_1: "fl32 1 = 1"
  using fl32_nat_exact [of 1] by simp

lemma fl32_numeral: "(numeral k :: nat) < 2 ^ 24 \<Longrightarrow> fl32 (numeral k) = numeral k"
  using fl32_nat_exact [of "numeral k"] by simp

lemma float_of_nat_exact: "n < 2 ^ 24 \<Longrightarrow> float_of_nat n = real n"
  by (simp add: float_of_nat_def fl32_nat_exact)

lemma float_of_nat_pos: "0 < float_of_nat n \<longleftrightarrow> 0 < n"
  using fl32_nat_pos [of n] by (cases "n = 0") (simp_all add: float_of_nat_def fl32_0)

lemmas float_int_simps = fadd_def fsub_def fmul_def float_of_nat_def fl32_0 fl32_1 fl32_numeral

text \<open>A number in the range of \<open>float\<close> is rounded to a finite \<open>float\<close>.\<close>

lemma round_even_near: "\<bar>of_int (round_even q) - q\<bar> \<le> 1 / 2"
proof -
  have "of_int \<lfloor>q\<rfloor> \<le> q" "q < of_int \<lfloor>q\<rfloor> + 1" by linarith+
  then show ?thesis unfolding round_even_def Let_def by auto
qed

lemma expo_search_le: "expo_search n a \<le> int n - 126"
  by (induction n) auto

lemma expo_search_min: "- 126 \<le> expo_search n a"
  by (induction n) auto

lemma expo_search_upper:
  assumes "a < 2 ^ 128" and "0 \<le> a"
  shows "a < 2 powi (expo_search 253 a + 1)"
proof (cases "expo_search 253 a = 127")
  case True
  with assms(1) show ?thesis by simp
next
  case False
  with expo_search_le [of 253 a] have lt: "expo_search 253 a < 127" by simp
  show ?thesis
  proof (rule ccontr)
    assume "\<not> a < 2 powi (expo_search 253 a + 1)"
    then have "2 powi (expo_search 253 a + 1) \<le> a" by simp
    moreover have "- 126 \<le> expo_search 253 a" by (rule expo_search_min)
    ultimately have "expo_search 253 a + 1 \<le> expo_search 253 a"
      using lt by (intro expo_search_ge) simp_all
    then show False by simp
  qed
qed

lemma fl32_finite:
  assumes "float_finite a"
  shows "\<bar>fl32 a\<bar> \<le> float_max"
proof -
  define e where "e = expo_search 253 \<bar>a\<bar>"
  define u :: real where "u = 2 powi (e - 23)"
  define m where "m = round_even (a / u)"
  have upos: "0 < u" by (simp add: u_def)
  have fl: "fl32 a = of_int m * u" by (simp add: fl32_def Let_def e_def u_def m_def)
  from assms have a128: "\<bar>a\<bar> < 2 ^ 128" by (simp add: float_finite_def)
  from expo_search_upper [OF a128] have up: "\<bar>a\<bar> < 2 powi (e + 1)" by (simp add: e_def)
  have e127: "e \<le> 127" using expo_search_le [of 253 "\<bar>a\<bar>"] by (simp add: e_def)
  have split: "(2::real) powi (e + 1) = 2 ^ 24 * u"
  proof -
    have "e + 1 = 24 + (e - 23)" by simp
    then have "(2::real) powi (e + 1) = 2 powi (24 + (e - 23))" by (rule arg_cong)
    also have "\<dots> = 2 powi 24 * 2 powi (e - 23)" by (rule power_int_add) simp
    finally show ?thesis by (simp add: u_def)
  qed
  define x where "x = a / u"
  have near: "\<bar>of_int m - x\<bar> \<le> 1 / 2" unfolding m_def x_def by (rule round_even_near)
  have ax: "\<bar>x\<bar> = \<bar>a\<bar> / u" using upos by (simp add: x_def)
  have q: "\<bar>x\<bar> < 16777216"
  proof -
    from up split have "\<bar>a\<bar> < 16777216 * u" by simp
    with upos show ?thesis unfolding ax by (simp add: pos_divide_less_eq)
  qed
  show ?thesis
  proof (cases "e = 127")
    case True
    then have u104: "u = 2 ^ 104" by (simp add: u_def)
    from assms have "\<bar>a\<bar> < (16777216 - 1 / 2) * u" unfolding u104 by (simp add: float_finite_def)
    with upos have "\<bar>x\<bar> < 16777216 - 1 / 2" unfolding ax by (simp add: pos_divide_less_eq)
    with near have "\<bar>real_of_int m\<bar> < 16777216" by linarith
    then have "\<bar>m\<bar> < 16777216" by linarith
    then have "\<bar>m\<bar> \<le> 16777215" by simp
    then have "\<bar>real_of_int m\<bar> \<le> 16777215" by linarith
    then have "\<bar>real_of_int m\<bar> * u \<le> 16777215 * u" using upos by (intro mult_right_mono) simp_all
    then show ?thesis unfolding fl u104 float_max_def by (simp add: abs_mult)
  next
    case False
    with e127 have e126: "e + 1 \<le> 127" by simp
    from near q have "\<bar>real_of_int m\<bar> < 16777217" by linarith
    then have "\<bar>m\<bar> < 16777217" by linarith
    then have "\<bar>m\<bar> \<le> 16777216" by simp
    then have "\<bar>real_of_int m\<bar> \<le> 16777216" by linarith
    then have "\<bar>real_of_int m\<bar> * u \<le> 16777216 * u" using upos by (intro mult_right_mono) simp_all
    also have "\<dots> = 2 powi (e + 1)" using split by simp
    also have "\<dots> \<le> 2 powi 127" using e126 by (intro power_int_increasing) simp_all
    also have "\<dots> \<le> float_max" by (simp add: float_max_def)
    finally show ?thesis unfolding fl using upos by (simp add: abs_mult)
  qed
qed

section \<open>Loops and frames\<close>

text \<open>An invariant of the body of a loop holds after the loop.\<close>

lemma foldE_invariant:
  assumes "foldE f xs s = Inr s'" and "P s"
    and "\<And>a t t'. a \<in> set xs \<Longrightarrow> P t \<Longrightarrow> f a t = Inr t' \<Longrightarrow> P t'"
  shows "P s'"
  using assms
proof (induction xs arbitrary: s)
  case Nil
  then show ?case by simp
next
  case (Cons a xs)
  from Cons.prems(1) obtain t where t: "f a s = Inr t" and rest: "foldE f xs t = Inr s'"
    by (auto split: sum.splits)
  have "P t" using Cons.prems(3) [of a s t] Cons.prems(2) t by simp
  show ?case
    by (rule Cons.IH [OF rest \<open>P t\<close>]) (use Cons.prems(3) in auto)
qed

lemma pass_loop_invariant:
  assumes "pass_loop body order forward n_id end_id s = Inr s'" and "P s"
    and "\<And>n t t'. P t \<Longrightarrow> body n t = Inr t' \<Longrightarrow> P t'"
  shows "P s'"
  using assms
proof (induction body order forward n_id end_id s rule: pass_loop.induct)
  case (1 body order forward n_id end_id s)
  show ?case
  proof (cases "n_id = end_id")
    case True
    with "1.prems" show ?thesis by (simp add: pass_loop.simps)
  next
    case False
    with "1.prems"(1) have inb: "\<not> (n_id < 0 \<or> int (length order) \<le> n_id)"
      by (subst (asm) pass_loop.simps) (auto split: if_splits)
    with False "1.prems"(1) obtain t where t: "body (order ! nat n_id) s = Inr t"
      and rest: "pass_loop body order forward (n_id + (if forward then 1 else - 1)) end_id t = Inr s'"
      by (subst (asm) pass_loop.simps) (auto split: sum.splits)
    from "1.prems"(3) [OF "1.prems"(2) t] have "P t" .
    from "1.IH" [OF False inb t rest this "1.prems"(3)] show ?thesis by simp
  qed
qed

text \<open>The fields of the task data that augmentation and prediction leave alone.\<close>

definition frame :: "task_data \<Rightarrow> task_data \<Rightarrow> bool" where
  "frame D D' \<longleftrightarrow>
     num_loops D' = num_loops D \<and> K D' = K D \<and> use_structure D' = use_structure D
     \<and> separate_learners D' = separate_learners D \<and> mask_td D' = mask_td D
     \<and> multiplier D' = multiplier D \<and> N D' = N D \<and> adj D' = adj D \<and> bfs D' = bfs D
     \<and> true_counts D' = true_counts D"

lemma frame_refl: "frame D D"
  by (simp add: frame_def)

lemma frame_trans: "frame D D' \<Longrightarrow> frame D' D'' \<Longrightarrow> frame D D''"
  by (simp add: frame_def)

lemma add_edge_frame:
  assumes "add_edge all n i st = Inr st'"
  shows "frame (fst st) (fst st') \<and> length (snd st') = length (snd st)
         \<and> cur_node (fst st') = cur_node (fst st) \<and> pred (fst st') = pred (fst st)"
  using assms
  by (auto simp: add_edge_def Let_def frame_def split: if_splits sum.splits)

lemma add_edge_features_frame:
  assumes "add_edge_features all D n ec = Inr (D', ec')"
  shows "frame D D' \<and> length ec' = length ec \<and> pred D' = pred D"
proof -
  from assms obtain st where st: "foldE (add_edge all n) (adj D ! unat n) (D\<lparr>cur_node := unat n\<rparr>, ec) = Inr st"
    and D': "D' = fst st" and ec': "length ec' = length (snd st)"
    by (auto simp: add_edge_features_def Let_def split: if_splits sum.splits)
  have "frame D (fst st) \<and> length (snd st) = length ec \<and> pred (fst st) = pred D"
    by (rule foldE_invariant [OF st, where P = "\<lambda>st. frame D (fst st) \<and> length (snd st) = length ec \<and> pred (fst st) = pred D"])
       (auto simp: frame_def dest!: add_edge_frame)
  with D' ec' show ?thesis by simp
qed

lemma del_edge_features_length: "del_edge_features all D n ec = Inr ec' \<Longrightarrow> length ec' = length ec"
  by (auto simp: del_edge_features_def Let_def split: if_splits)

lemma predict_node_effect:
  assumes "predict_node all sch loop n (D, ec, reqs) = Inr (D', ec', reqs')"
  shows "frame D D' \<and> length ec' = length ec \<and> length (pred D') = length (pred D)
         \<and> (\<exists>P. reqs' = reqs @ [P] \<and> tag P = n + 1
                  \<and> learner_id P = (if separate_learners D then Some loop else None))"
proof (cases "predictNeedsExample sch (length reqs)")
  case True
  with assms obtain D1 ec1 where a: "add_edge_features all D n ec = Inr (D1, ec1)"
    by (auto simp: predict_node_def Let_def split: if_splits sum.splits)
  from add_edge_features_frame [OF a] assms True a show ?thesis
    by (auto simp: predict_node_def Let_def frame_def split: if_splits sum.splits
             dest!: del_edge_features_length)
next
  case False
  with assms show ?thesis
    by (auto simp: predict_node_def Let_def frame_def split: if_splits sum.splits)
qed

lemma count_records_frame:
  "count_records ec D = Inr D' \<Longrightarrow>
     num_loops D' = num_loops D \<and> K D' = K D \<and> use_structure D' = use_structure D
     \<and> separate_learners D' = separate_learners D \<and> mask_td D' = mask_td D
     \<and> multiplier D' = multiplier D \<and> length (true_counts D') = length (true_counts D)
     \<and> confusion_matrix D' = confusion_matrix D \<and> neighbor_predictions D' = neighbor_predictions D"
proof (induction ec arbitrary: D)
  case Nil
  then show ?case by simp
next
  case (Cons e es)
  show ?case
  proof (cases "example_is_edge e")
    case True
    with Cons.prems have "count_records es (D\<lparr>E := E D + 1\<rparr>) = Inr D'" by simp
    from Cons.IH [OF this] show ?thesis by simp
  next
    case False
    show ?thesis
    proof (cases "0 < length (costs e)")
      case True
      with False Cons.prems
      have "count_records es (D\<lparr>N := N D + 1,
              true_counts := (true_counts D)[unat (costs e ! 0) := fadd (true_counts D ! unat (costs e ! 0)) 1],
              true_counts_total := fadd (true_counts_total D) 1\<rparr>) = Inr D'"
        by (simp add: Let_def split: if_splits)
      from Cons.IH [OF this] show ?thesis by simp
    next
      case F2: False
      with False Cons.prems have "count_records es (D\<lparr>N := N D + 1\<rparr>) = Inr D'"
        by (simp split: if_splits)
      from Cons.IH [OF this] show ?thesis by simp
    qed
  qed
qed

lemma setup_task_Inr:
  "setup_task all D ec = Inr D' \<longleftrightarrow>
     (\<exists>D2 a D3. count_records ec (setup_globals all D) = Inr D2 \<and> \<not> (N D2 = 0 \<and> 0 < E D2)
        \<and> foldE (edge_step (N D2) ec) [unat (N D2)..<length ec] (replicate (unat (N D2)) []) = Inr a
        \<and> run_bfs (D2\<lparr>adj := a\<rparr>) ec = Inr D3
        \<and> D' = D3\<lparr>pred := replicate (unat (N D3)) (K D3 + 1)\<rparr>)"
  unfolding setup_task_def by (auto split: sum.splits)

lemma run_bfs_Inr:
  "run_bfs D ec = Inr D' \<Longrightarrow> \<exists>b. D' = D\<lparr>bfs := b\<rparr>"
  by (auto simp: run_bfs_def Let_def split: if_splits sum.splits)

lemma setup_task_frame:
  assumes "setup_task all D ec = Inr D'"
  shows "num_loops D' = num_loops D \<and> K D' = K D \<and> use_structure D' = use_structure D
     \<and> separate_learners D' = separate_learners D
     \<and> length (true_counts D') = length (true_counts D)
     \<and> confusion_matrix D' = confusion_matrix D \<and> neighbor_predictions D' = neighbor_predictions D
     \<and> length (pred D') = unat (N D')"
proof -
  from assms obtain D2 a D3 where c: "count_records ec (setup_globals all D) = Inr D2"
    and b: "run_bfs (D2\<lparr>adj := a\<rparr>) ec = Inr D3"
    and D': "D' = D3\<lparr>pred := replicate (unat (N D3)) (K D3 + 1)\<rparr>"
    unfolding setup_task_Inr by blast
  from run_bfs_Inr [OF b] obtain bb where "D3 = D2\<lparr>adj := a, bfs := bb\<rparr>" by auto
  with count_records_frame [OF c] D' show ?thesis
    by (simp add: setup_globals_def)
qed


lemma run_Inr:
  "run all sch D ec = Inr (D', ec', reqs, l) \<longleftrightarrow>
     (\<exists>D2 m. run_passes all sch D ec = Inr (D2, ec', reqs)
        \<and> foldE (count_confusion ec') [0..<unat (N D2)] D2 = Inr D'
        \<and> macro_f D' = Inr m \<and> l = map_option (fsub 1) m)"
  unfolding run_def by (auto split: sum.splits)

lemma run_passes_Inr:
  "run_passes all sch D ec = Inr st \<longleftrightarrow>
     (\<exists>D1. run_reset D = Inr D1 \<and> foldE (run_pass all sch) [0..<num_loops D1] (D1, ec, []) = Inr st)"
  unfolding run_passes_def by (auto split: sum.splits)

lemma run_reset_frame: "run_reset D = Inr D1 \<Longrightarrow> frame D D1 \<and> length (pred D1) = length (pred D)"
  by (auto simp: run_reset_def Let_def frame_def split: if_splits)

lemma run_pass_invariant:
  assumes "run_pass all sch loop st = Inr st'" and "P st"
    and "\<And>n t t'. P t \<Longrightarrow> predict_node all sch loop n t = Inr t' \<Longrightarrow> P t'"
  shows "P st'"
proof (cases "loop mod 2 = 1")
  case True
  with assms(1) have p: "pass_loop (predict_node all sch loop) (bfs (fst st)) False
      (sint (N (fst st) - 1)) (- 1) st = Inr st'"
    by (simp add: run_pass_def)
  show ?thesis
    by (rule pass_loop_invariant [where P = P, OF p assms(2)]) (rule assms(3))
next
  case False
  with assms(1) have p: "pass_loop (predict_node all sch loop) (bfs (fst st)) True
      0 (sint (N (fst st))) st = Inr st'"
    by (simp add: run_pass_def)
  show ?thesis
    by (rule pass_loop_invariant [where P = P, OF p assms(2)]) (rule assms(3))
qed

lemma run_learner_ids:
  assumes "run_passes all sch D ec = Inr (D2, ec', reqs)" and "\<not> separate_learners D"
  shows "\<forall>r\<in>set reqs. learner_id r = None"
proof -
  from assms(1) obtain D1 where r: "run_reset D = Inr D1"
    and f: "foldE (run_pass all sch) [0..<num_loops D1] (D1, ec, []) = Inr (D2, ec', reqs)"
    unfolding run_passes_Inr by blast
  let ?P = "\<lambda>st. \<not> separate_learners (fst st) \<and> (\<forall>r\<in>set (snd (snd st)). learner_id r = None)"
  have step: "?P t'" if "?P t" and "predict_node all sch loop n t = Inr t'" for loop n t t'
  proof -
    obtain Da eca ra where t: "t = (Da, eca, ra)" by (cases t) auto
    obtain Db ecb rb where t': "t' = (Db, ecb, rb)" by (cases t') auto
    from predict_node_effect [OF that(2) [unfolded t t']] that(1) show ?thesis
      by (auto simp: t t' frame_def)
  qed
  have "?P (D2, ec', reqs)"
  proof (rule foldE_invariant [OF f, where P = ?P])
    show "?P (D1, ec, [])" using run_reset_frame [OF r] assms(2) by (simp add: frame_def)
  next
    fix a t t'
    assume p: "?P t" and rp: "run_pass all sch a t = Inr t'"
    show "?P t'"
      by (rule run_pass_invariant [where P = ?P, OF rp p]) (rule step)
  qed
  then show ?thesis by simp
qed

section \<open>The traversal order is a permutation\<close>

text \<open>
  The invariant of both loops of \<open>run_bfs\<close> for \<open>nn\<close> nodes: \<open>touched\<close> has \<open>nn\<close>
  entries and marks exactly the nodes that are in the order, no node is in the order
  twice, and every node of the order is below \<open>nn\<close>. \<open>graph_ok\<close> is what the loops need
  of the adjacency lists: they name examples that exist, and these refer to nodes
  \<open>1 .. nn\<close> only.
\<close>

definition bfs_inv :: "nat \<Rightarrow> u32 list \<times> bool list \<Rightarrow> bool" where
  "bfs_inv nn s \<longleftrightarrow>
     length (snd s) = nn \<and> distinct (map unat (fst s))
     \<and> (\<forall>k<nn. snd s ! k \<longleftrightarrow> k \<in> unat ` set (fst s))
     \<and> (\<forall>m\<in>set (fst s). unat m < nn)"

definition graph_ok :: "nat \<Rightarrow> nat list list \<Rightarrow> example list \<Rightarrow> bool" where
  "graph_ok nn a ec \<longleftrightarrow>
     length a = nn
     \<and> (\<forall>k<nn. \<forall>i\<in>set (a ! k). i < length ec \<and> (\<forall>ci\<in>set (costs (ec ! i)). unat (ci - 1) < nn))"

lemma visit_inv:
  assumes "bfs_inv nn s" and "unat (ci - 1) < nn"
  shows "\<exists>s'. visit ci s = Inr s' \<and> bfs_inv nn s' \<and> (\<exists>ys. fst s' = fst s @ ys)"
proof (cases "snd s ! unat (ci - 1)")
  case True
  with assms show ?thesis by (auto simp: visit_def bfs_inv_def Let_def)
next
  case False
  with assms have new: "unat (ci - 1) \<notin> unat ` set (fst s)" by (auto simp: bfs_inv_def)
  from assms False have v: "visit ci s = Inr (fst s @ [ci - 1], (snd s)[unat (ci - 1) := True])"
    by (auto simp: visit_def bfs_inv_def Let_def)
  have "bfs_inv nn (fst s @ [ci - 1], (snd s)[unat (ci - 1) := True])"
    using assms new unfolding bfs_inv_def
    by (auto simp: nth_list_update)
  with v show ?thesis by auto
qed

lemma foldE_visit_inv:
  assumes "bfs_inv nn s" and "\<forall>ci\<in>set cs. unat (ci - 1) < nn"
  shows "\<exists>s'. foldE visit cs s = Inr s' \<and> bfs_inv nn s' \<and> (\<exists>ys. fst s' = fst s @ ys)"
  using assms
proof (induction cs arbitrary: s)
  case Nil
  then show ?case by simp
next
  case (Cons c cs)
  from visit_inv [OF Cons.prems(1), of c] Cons.prems(2)
  obtain s1 ys where s1: "visit c s = Inr s1" "bfs_inv nn s1" "fst s1 = fst s @ ys" by auto
  from Cons.IH [OF s1(2)] Cons.prems(2)
  obtain s' zs where "foldE visit cs s1 = Inr s'" "bfs_inv nn s'" "fst s' = fst s1 @ zs" by auto
  with s1 show ?case by auto
qed

lemma expand_inv:
  assumes "graph_ok nn a ec" and "bfs_inv nn s" and "unat n < nn"
  shows "\<exists>s'. expand a ec n s = Inr s' \<and> bfs_inv nn s' \<and> (\<exists>ys. fst s' = fst s @ ys)"
proof -
  let ?f = "\<lambda>i s'. if length ec \<le> i then Inl OutOfBounds else foldE visit (costs (ec ! i)) s'"
  have gen: "\<exists>s'. foldE ?f is s = Inr s' \<and> bfs_inv nn s' \<and> (\<exists>ys. fst s' = fst s @ ys)"
    if "bfs_inv nn s" and "\<forall>i\<in>set is. i < length ec \<and> (\<forall>ci\<in>set (costs (ec ! i)). unat (ci - 1) < nn)"
    for "is" s
    using that
  proof (induction "is" arbitrary: s)
    case Nil
    then show ?case by simp
  next
    case (Cons i "is")
    from foldE_visit_inv [OF Cons.prems(1), of "costs (ec ! i)"] Cons.prems(2)
    obtain s1 ys where s1: "foldE visit (costs (ec ! i)) s = Inr s1" "bfs_inv nn s1" "fst s1 = fst s @ ys"
      by auto
    from Cons.IH [OF s1(2)] Cons.prems(2)
    obtain s' zs where "foldE ?f is s1 = Inr s'" "bfs_inv nn s'" "fst s' = fst s1 @ zs" by auto
    with s1 Cons.prems(2) show ?case by auto
  qed
  from assms have "\<forall>i\<in>set (a ! unat n). i < length ec \<and> (\<forall>ci\<in>set (costs (ec ! i)). unat (ci - 1) < nn)"
    by (auto simp: graph_ok_def)
  from gen [OF assms(2) this] assms(1,3) show ?thesis
    by (auto simp: expand_def graph_ok_def)
qed

lemma bfs_inner_inv:
  assumes "graph_ok nn a ec" and "bfs_inv nn s"
  shows "\<exists>i' s'. bfs_inner a ec i s = Inr (i', s') \<and> bfs_inv nn s' \<and> (\<exists>ys. fst s' = fst s @ ys)"
  using assms
proof (induction a ec i s rule: bfs_inner.induct)
  case (1 a ec i s)
  show ?case
  proof (cases "i < length (fst s)")
    case True
    with "1.prems"(2) have "unat (fst s ! i) < nn" by (auto simp: bfs_inv_def)
    from expand_inv [OF "1.prems"(1,2) this]
    obtain s1 ys where s1: "expand a ec (fst s ! i) s = Inr s1" "bfs_inv nn s1" "fst s1 = fst s @ ys"
      by auto
    from "1.IH" [OF True s1(1) "1.prems"(1) s1(2)]
    obtain i' s' zs where "bfs_inner a ec (i + 1) s1 = Inr (i', s')" "bfs_inv nn s'" "fst s' = fst s1 @ zs"
      by auto
    with True s1 show ?thesis by (subst bfs_inner.simps) auto
  next
    case False
    with "1.prems" show ?thesis by (subst bfs_inner.simps) auto
  qed
qed

lemma first_untouched_total:
  assumes "\<forall>n\<in>set ns. n < length t"
  shows "(\<exists>n. first_untouched ns t = Inr (Some n) \<and> n \<in> set ns \<and> \<not> t ! n)
       \<or> (first_untouched ns t = Inr None \<and> (\<forall>n\<in>set ns. t ! n))"
  using assms by (induction ns) auto

lemma bfs_inv_short:
  assumes "bfs_inv nn s" and "length (fst s) < nn"
  shows "\<exists>k<nn. \<not> snd s ! k"
proof (rule ccontr)
  assume "\<not> (\<exists>k<nn. \<not> snd s ! k)"
  with assms(1) have "{0..<nn} \<subseteq> unat ` set (fst s)" by (auto simp: bfs_inv_def)
  then have "card {0..<nn} \<le> card (unat ` set (fst s))" by (intro card_mono) auto
  also have "\<dots> \<le> length (fst s)"
    by (metis card_length length_map set_map)
  finally show False using assms(2) by simp
qed

lemma bfs_inv_full:
  assumes "bfs_inv nn s" and "nn \<le> length (fst s)"
  shows "length (fst s) = nn \<and> unat ` set (fst s) = {0..<nn} \<and> distinct (fst s)"
proof -
  from assms(1) have d: "distinct (map unat (fst s))" and sub: "unat ` set (fst s) \<subseteq> {0..<nn}"
    by (auto simp: bfs_inv_def)
  from d have c: "card (unat ` set (fst s)) = length (fst s)"
    by (metis distinct_card length_map set_map)
  from sub have "card (unat ` set (fst s)) \<le> card {0..<nn}" by (intro card_mono) auto
  with c assms(2) have l: "length (fst s) = nn" by simp
  with c sub have "unat ` set (fst s) = {0..<nn}" by (intro card_subset_eq) auto
  moreover from d have "distinct (fst s)" by (simp add: distinct_map)
  ultimately show ?thesis using l by simp
qed

lemma bfs_outer_inv:
  assumes "graph_ok nn a ec" and "bfs_inv nn s" and "nn \<le> 2 ^ 32"
  shows "\<exists>s'. bfs_outer a ec nn i s = Inr s' \<and> bfs_inv nn s' \<and> nn \<le> length (fst s')
           \<and> (\<exists>ys. fst s' = fst s @ ys)"
  using assms
proof (induction a ec nn i s rule: bfs_outer.induct)
  case (1 a ec nn i s)
  show ?case
  proof (cases "length (fst s) < nn")
    case False
    with "1.prems" show ?thesis by (subst bfs_outer.simps) auto
  next
    case True
    from bfs_inner_inv [OF "1.prems"(1,2), of i]
    obtain i' s1 ys where s1: "bfs_inner a ec i s = Inr (i', s1)" "bfs_inv nn s1" "fst s1 = fst s @ ys"
      by auto
    show ?thesis
    proof (cases "length (fst s1) < nn")
      case F2: False
      with True s1 show ?thesis by (subst bfs_outer.simps) auto
    next
      case T2: True
      from s1(2) have lt: "\<forall>n\<in>set [0..<nn]. n < length (snd s1)" by (simp add: bfs_inv_def)
      from bfs_inv_short [OF s1(2) T2] first_untouched_total [OF lt]
      obtain k where k: "first_untouched [0..<nn] (snd s1) = Inr (Some k)" "k < nn" "\<not> snd s1 ! k"
        by auto
      from k(2) "1.prems"(3) have uk: "unat (word_of_nat k :: u32) = k"
        by (simp add: unat_of_nat)
      from s1(2) k have new: "k \<notin> unat ` set (fst s1)" by (auto simp: bfs_inv_def)
      have inv2: "bfs_inv nn (fst s1 @ [word_of_nat k], (snd s1)[k := True])"
        using s1(2) k new uk unfolding bfs_inv_def
        by (auto simp: nth_list_update)
      from "1.IH" [OF True s1(1) refl T2 k(1) refl "1.prems"(1) inv2 "1.prems"(3)]
      obtain s' zs where "bfs_outer a ec nn i' (fst s1 @ [word_of_nat k], (snd s1)[k := True]) = Inr s'"
        "bfs_inv nn s'" "nn \<le> length (fst s')" "fst s' = (fst s1 @ [word_of_nat k]) @ zs"
        by auto
      with True T2 s1 k show ?thesis by (subst bfs_outer.simps) auto
    qed
  qed
qed

lemma run_bfs_perm:
  assumes "graph_ok (unat (N D)) (adj D) ec" and "N D \<noteq> 0"
  shows "\<exists>b. run_bfs D ec = Inr (D\<lparr>bfs := b\<rparr>) \<and> length b = unat (N D) \<and> distinct b
            \<and> unat ` set b = {0..<unat (N D)} \<and> b ! 0 = 0"
proof -
  let ?n = "unat (N D)"
  from assms(2) have pos: "0 < ?n" by (simp add: unat_gt_0)
  have le: "?n \<le> 2 ^ 32" using unsigned_less [of "N D", where 'a = nat] by simp
  let ?s = "([0::u32], (replicate ?n False)[0 := True])"
  have inv: "bfs_inv ?n ?s"
    using pos by (auto simp: bfs_inv_def nth_list_update)
  from bfs_outer_inv [OF assms(1) inv le, of 0]
  obtain s' ys where s': "bfs_outer (adj D) ec ?n 0 ?s = Inr s'" "bfs_inv ?n s'"
    "?n \<le> length (fst s')" "fst s' = [0] @ ys"
    by auto
  from s'(1) pos have r: "run_bfs D ec = Inr (D\<lparr>bfs := fst s'\<rparr>)"
    by (simp add: run_bfs_def Let_def)
  from s'(4) have z: "fst s' ! 0 = 0" by simp
  from bfs_inv_full [OF s'(2,3)] r z show ?thesis by blast
qed

section \<open>The outcome of setup\<close>

text \<open>
  \<open>class_index - 1\<close> is a node of the graph exactly for the ids \<open>1 .. N\<close>; the
  validation of \<open>setup\<close> checks the upper bound only.
\<close>

lemma unat_pred_less:
  fixes ci n :: u32
  shows "unat (ci - 1) < unat n \<longleftrightarrow> ci \<noteq> 0 \<and> ci \<le> n"
proof (cases "ci = 0")
  case True
  have "unat n < 2 ^ 32" using unsigned_less [of n, where 'a = nat] by simp
  moreover have "unat (- 1 :: u32) = 4294967295" by (simp add: unsigned_minus_1_eq_mask mask_eq_exp_minus_1)
  ultimately show ?thesis using True by simp
next
  case False
  then have "unat (ci - 1) = unat ci - 1" by (rule unat_minus_one)
  moreover from False have "0 < unat ci" by (simp add: unat_gt_0)
  ultimately show ?thesis using False by (auto simp: word_le_nat_alt)
qed

lemma add_adj_ok:
  assumes "length a = nn" and "unat (ci - 1) < nn"
  shows "\<exists>a'. add_adj i ci a = Inr a' \<and> length a' = nn \<and> (\<forall>k<nn. set (a' ! k) \<subseteq> insert i (set (a ! k)))"
  using assms by (auto simp: add_adj_def Let_def nth_list_update)

lemma add_adj_fail:
  assumes "length a = nn" and "\<not> unat (ci - 1) < nn"
  shows "add_adj i ci a = Inl OutOfBounds"
  using assms by (auto simp: add_adj_def Let_def)

lemma foldE_add_adj_ok:
  assumes "length a = nn" and "\<forall>ci\<in>set cs. unat (ci - 1) < nn"
  shows "\<exists>a'. foldE (add_adj i) cs a = Inr a' \<and> length a' = nn
            \<and> (\<forall>k<nn. set (a' ! k) \<subseteq> insert i (set (a ! k)))"
  using assms
proof (induction cs arbitrary: a)
  case Nil
  then show ?case by auto
next
  case (Cons c cs)
  from add_adj_ok [OF Cons.prems(1), of c i] Cons.prems(2)
  obtain a1 where a1: "add_adj i c a = Inr a1" "length a1 = nn"
    "\<forall>k<nn. set (a1 ! k) \<subseteq> insert i (set (a ! k))" by auto
  from Cons.IH [OF a1(2)] Cons.prems(2)
  obtain a' where a': "foldE (add_adj i) cs a1 = Inr a'" "length a' = nn"
    "\<forall>k<nn. set (a' ! k) \<subseteq> insert i (set (a1 ! k))" by auto
  from a1(3) a'(3) have "\<forall>k<nn. set (a' ! k) \<subseteq> insert i (set (a ! k))" by blast
  with a1 a' show ?case by auto
qed

lemma foldE_add_adj_fail:
  assumes "length a = nn" and "\<exists>ci\<in>set cs. \<not> unat (ci - 1) < nn"
  shows "foldE (add_adj i) cs a = Inl OutOfBounds"
  using assms
proof (induction cs arbitrary: a)
  case Nil
  then show ?case by simp
next
  case (Cons c cs)
  show ?case
  proof (cases "unat (c - 1) < nn")
    case True
    from add_adj_ok [OF Cons.prems(1) True, of i]
    obtain a1 where a1: "add_adj i c a = Inr a1" "length a1 = nn" by auto
    from Cons.prems(2) True have "\<exists>ci\<in>set cs. \<not> unat (ci - 1) < nn" by auto
    from Cons.IH [OF a1(2) this] a1(1) show ?thesis by simp
  next
    case False
    from add_adj_fail [OF Cons.prems(1) False] show ?thesis by simp
  qed
qed

lemma edge_step_cases:
  assumes "length a = unat n"
  shows "((\<exists>ci\<in>set (costs (ec ! i)). n < ci) \<longrightarrow> edge_step n ec i a = Inl NodeIdTooLarge)
     \<and> (\<not> (\<exists>ci\<in>set (costs (ec ! i)). n < ci) \<longrightarrow> 0 \<in> set (costs (ec ! i))
          \<longrightarrow> edge_step n ec i a = Inl OutOfBounds)
     \<and> ((\<forall>ci\<in>set (costs (ec ! i)). ci \<noteq> 0 \<and> ci \<le> n) \<longrightarrow>
          (\<exists>a'. edge_step n ec i a = Inr a' \<and> length a' = unat n
             \<and> (\<forall>k<unat n. set (a' ! k) \<subseteq> insert i (set (a ! k)))))"
proof -
  have 1: "edge_step n ec i a = Inl NodeIdTooLarge" if "\<exists>ci\<in>set (costs (ec ! i)). n < ci"
    using that by (auto simp: edge_step_def list_ex_iff)
  have 2: "edge_step n ec i a = Inl OutOfBounds"
    if "\<not> (\<exists>ci\<in>set (costs (ec ! i)). n < ci)" and "0 \<in> set (costs (ec ! i))"
  proof -
    from that(2) have "\<exists>ci\<in>set (costs (ec ! i)). \<not> unat (ci - 1) < unat n"
      by (auto simp: unat_pred_less)
    from foldE_add_adj_fail [OF assms this] that(1) show ?thesis
      by (auto simp: edge_step_def list_ex_iff)
  qed
  have 3: "\<exists>a'. edge_step n ec i a = Inr a' \<and> length a' = unat n
             \<and> (\<forall>k<unat n. set (a' ! k) \<subseteq> insert i (set (a ! k)))"
    if "\<forall>ci\<in>set (costs (ec ! i)). ci \<noteq> 0 \<and> ci \<le> n"
  proof -
    from that have "\<forall>ci\<in>set (costs (ec ! i)). unat (ci - 1) < unat n"
      by (simp add: unat_pred_less)
    from foldE_add_adj_ok [OF assms this] that show ?thesis
      by (auto simp: edge_step_def list_ex_iff)
  qed
  from 1 2 3 show ?thesis by auto
qed

text \<open>
  The conditions on the list of records that the three errors of \<open>setup\<close> stand for:
  a node record after an edge record, no node record at all, and an edge that refers to
  an id above the number of node records. \<open>labels_in_range\<close> and \<open>ids_nonzero\<close> say
  that the label of every node indexes \<open>D.true_counts\<close> and that no edge refers to the
  id 0.
\<close>

definition node_after_edge :: "example list \<Rightarrow> bool" where
  "node_after_edge ec \<longleftrightarrow>
     (\<exists>i j. i < j \<and> j < length ec \<and> example_is_edge (ec ! i) \<and> \<not> example_is_edge (ec ! j))"

definition nodes :: "example list \<Rightarrow> nat" where
  "nodes ec = length (filter (\<lambda>e. \<not> example_is_edge e) ec)"

lemma node_after_edge_Nil: "\<not> node_after_edge []"
  by (simp add: node_after_edge_def)

lemma node_after_edge_Cons:
  "node_after_edge (e # es) \<longleftrightarrow>
     (example_is_edge e \<and> (\<exists>x\<in>set es. \<not> example_is_edge x)) \<or> node_after_edge es"
proof
  assume "node_after_edge (e # es)"
  then obtain i j where ij: "i < j" "j < length (e # es)" "example_is_edge ((e # es) ! i)"
    "\<not> example_is_edge ((e # es) ! j)"
    by (auto simp: node_after_edge_def)
  from ij(1) obtain j' where j': "j = Suc j'" by (cases j) auto
  show "(example_is_edge e \<and> (\<exists>x\<in>set es. \<not> example_is_edge x)) \<or> node_after_edge es"
  proof (cases i)
    case 0
    with ij j' have "example_is_edge e" and "\<not> example_is_edge (es ! j')" and "j' < length es"
      by auto
    then show ?thesis by (metis nth_mem)
  next
    case (Suc i')
    with ij j' have "i' < j'" "j' < length es" "example_is_edge (es ! i')" "\<not> example_is_edge (es ! j')"
      by auto
    then show ?thesis unfolding node_after_edge_def by blast
  qed
next
  assume "(example_is_edge e \<and> (\<exists>x\<in>set es. \<not> example_is_edge x)) \<or> node_after_edge es"
  then show "node_after_edge (e # es)"
  proof
    assume a: "example_is_edge e \<and> (\<exists>x\<in>set es. \<not> example_is_edge x)"
    then obtain j where "j < length es" "\<not> example_is_edge (es ! j)"
      by (metis in_set_conv_nth)
    with a have "0 < Suc j \<and> Suc j < length (e # es) \<and> example_is_edge ((e # es) ! 0)
        \<and> \<not> example_is_edge ((e # es) ! Suc j)" by simp
    then show ?thesis unfolding node_after_edge_def by blast
  next
    assume "node_after_edge es"
    then obtain i j where "i < j" "j < length es" "example_is_edge (es ! i)" "\<not> example_is_edge (es ! j)"
      by (auto simp: node_after_edge_def)
    then have "Suc i < Suc j \<and> Suc j < length (e # es) \<and> example_is_edge ((e # es) ! Suc i)
        \<and> \<not> example_is_edge ((e # es) ! Suc j)" by simp
    then show ?thesis unfolding node_after_edge_def by blast
  qed
qed

lemma nodes_first:
  "\<not> node_after_edge ec \<Longrightarrow> j < length ec \<Longrightarrow> example_is_edge (ec ! j) \<longleftrightarrow> nodes ec \<le> j"
proof (induction ec arbitrary: j)
  case Nil
  then show ?case by simp
next
  case (Cons e es)
  show ?case
  proof (cases "example_is_edge e")
    case True
    with Cons.prems(1) have all: "\<forall>x\<in>set es. example_is_edge x"
      by (auto simp: node_after_edge_Cons)
    then have "nodes (e # es) = 0" using True by (simp add: nodes_def)
    moreover from all True Cons.prems(2) have "example_is_edge ((e # es) ! j)"
      by (cases j) auto
    ultimately show ?thesis by simp
  next
    case False
    with Cons.prems(1) have nae: "\<not> node_after_edge es" by (simp add: node_after_edge_Cons)
    from False have n: "nodes (e # es) = Suc (nodes es)" by (simp add: nodes_def)
    show ?thesis
    proof (cases j)
      case 0
      with False n show ?thesis by simp
    next
      case (Suc j')
      with Cons.prems(2) Cons.IH [OF nae, of j'] n show ?thesis by simp
    qed
  qed
qed

lemma nodes_le: "nodes ec \<le> length ec"
  by (simp add: nodes_def)

lemma count_records_cases:
  assumes "count_records ec D \<noteq> Inl OutOfBounds"
    and "unat (E D) + length ec < 2 ^ 32" and "unat (N D) + length ec < 2 ^ 32"
  shows "if (0 < E D \<and> (\<exists>e\<in>set ec. \<not> example_is_edge e)) \<or> node_after_edge ec
         then count_records ec D = Inl NodeAfterEdge
         else (\<exists>D'. count_records ec D = Inr D' \<and> unat (N D') = unat (N D) + nodes ec
                 \<and> unat (E D') = unat (E D) + (length ec - nodes ec))"
  using assms
proof (induction ec arbitrary: D)
  case Nil
  then show ?case by (simp add: node_after_edge_Nil nodes_def)
next
  case (Cons e es)
  show ?case
  proof (cases "example_is_edge e")
    case True
    let ?D = "D\<lparr>E := E D + 1\<rparr>"
    from Cons.prems(2) have u: "unat (E D + 1) = unat (E D) + 1"
      by (simp add: unat_word_ariths)
    then have pos: "0 < E ?D" by (simp add: word_less_nat_alt)
    from True have same: "count_records (e # es) D = count_records es ?D" by simp
    from Cons.prems u same have
      "if (0 < E ?D \<and> (\<exists>e\<in>set es. \<not> example_is_edge e)) \<or> node_after_edge es
       then count_records es ?D = Inl NodeAfterEdge
       else (\<exists>D'. count_records es ?D = Inr D' \<and> unat (N D') = unat (N ?D) + nodes es
               \<and> unat (E D') = unat (E ?D) + (length es - nodes es))"
      by (intro Cons.IH) auto
    moreover have "node_after_edge es \<Longrightarrow> \<exists>e\<in>set es. \<not> example_is_edge e"
      unfolding node_after_edge_def by (metis nth_mem order_less_trans)
    moreover have "nodes (e # es) = nodes es" using True by (simp add: nodes_def)
    moreover have "nodes es \<le> length es" by (rule nodes_le)
    ultimately show ?thesis using True pos u
      by (auto simp: node_after_edge_Cons)
  next
    case False
    show ?thesis
    proof (cases "0 < E D")
      case True
      with False show ?thesis by simp
    next
      case E0: False
      define D1 where "D1 = (if 0 < length (costs e)
          then D\<lparr>N := N D + 1,
                 true_counts := (true_counts D)[unat (costs e ! 0) := fadd (true_counts D ! unat (costs e ! 0)) 1],
                 true_counts_total := fadd (true_counts_total D) 1\<rparr>
          else D\<lparr>N := N D + 1\<rparr>)"
      from False E0 Cons.prems(1) have step: "count_records (e # es) D = count_records es D1"
        by (auto simp: D1_def Let_def split: if_splits)
      from Cons.prems(3) have u: "unat (N D + 1) = unat (N D) + 1"
        by (simp add: unat_word_ariths)
      have D1: "E D1 = E D" "N D1 = N D + 1" "length (true_counts D1) = length (true_counts D)"
        by (simp_all add: D1_def)
      from Cons.prems u D1 step have
        "if (0 < E D1 \<and> (\<exists>e\<in>set es. \<not> example_is_edge e)) \<or> node_after_edge es
         then count_records es D1 = Inl NodeAfterEdge
         else (\<exists>D'. count_records es D1 = Inr D' \<and> unat (N D') = unat (N D1) + nodes es
                 \<and> unat (E D') = unat (E D1) + (length es - nodes es))"
        by (intro Cons.IH) auto
      moreover have "nodes (e # es) = Suc (nodes es)" using False by (simp add: nodes_def)
      ultimately show ?thesis using False E0 step D1 u
        by (auto simp: node_after_edge_Cons)
    qed
  qed
qed


definition labels_in_range :: "task_data \<Rightarrow> example list \<Rightarrow> bool" where
  "labels_in_range D ec \<longleftrightarrow>
     (\<forall>e\<in>set ec. \<not> example_is_edge e \<longrightarrow> costs e \<noteq> []
        \<longrightarrow> unat (costs e ! 0) < length (true_counts D))"

lemma count_records_safe:
  "labels_in_range D ec \<Longrightarrow> count_records ec D \<noteq> Inl OutOfBounds"
proof (induction ec arbitrary: D)
  case Nil
  then show ?case by simp
next
  case (Cons e es)
  have "labels_in_range D' es" if "length (true_counts D') = length (true_counts D)" for D'
    using Cons.prems that by (simp add: labels_in_range_def)
  then have "count_records es D' \<noteq> Inl OutOfBounds"
    if "length (true_counts D') = length (true_counts D)" for D'
    using Cons.IH that by blast
  with Cons.prems show ?case
    by (auto simp: labels_in_range_def Let_def)
qed

lemma edges_cases:
  assumes "foldE (edge_step n ec) is a \<noteq> Inl OutOfBounds" and "length a = unat n"
  shows "if \<exists>i\<in>set is. \<exists>ci\<in>set (costs (ec ! i)). n < ci
         then foldE (edge_step n ec) is a = Inl NodeIdTooLarge
         else (\<exists>a'. foldE (edge_step n ec) is a = Inr a' \<and> length a' = unat n
                 \<and> (\<forall>k<unat n. set (a' ! k) \<subseteq> set is \<union> set (a ! k))
                 \<and> (\<forall>i\<in>set is. \<forall>ci\<in>set (costs (ec ! i)). unat (ci - 1) < unat n))"
  using assms
proof (induction "is" arbitrary: a)
  case Nil
  then show ?case by simp
next
  case (Cons i "is")
  show ?case
  proof (cases "\<exists>ci\<in>set (costs (ec ! i)). n < ci")
    case True
    with edge_step_cases [OF Cons.prems(2), of ec i] show ?thesis by auto
  next
    case False
    have nz: "0 \<notin> set (costs (ec ! i))"
    proof
      assume "0 \<in> set (costs (ec ! i))"
      with False edge_step_cases [OF Cons.prems(2), of ec i]
      have "edge_step n ec i a = Inl OutOfBounds" by auto
      with Cons.prems(1) show False by simp
    qed
    with False have ids: "\<forall>ci\<in>set (costs (ec ! i)). ci \<noteq> 0 \<and> ci \<le> n"
      by (auto simp: not_less)
    with edge_step_cases [OF Cons.prems(2), of ec i]
    obtain a1 where a1: "edge_step n ec i a = Inr a1" "length a1 = unat n"
      "\<forall>k<unat n. set (a1 ! k) \<subseteq> insert i (set (a ! k))" by auto
    from a1(1) Cons.prems(1) have "foldE (edge_step n ec) is a1 \<noteq> Inl OutOfBounds" by simp
    note IH = Cons.IH [OF this a1(2)]
    show ?thesis
    proof (cases "\<exists>i\<in>set is. \<exists>ci\<in>set (costs (ec ! i)). n < ci")
      case True
      with IH a1(1) show ?thesis by simp
    next
      case F2: False
      with IH obtain a' where a': "foldE (edge_step n ec) is a1 = Inr a'" "length a' = unat n"
        "\<forall>k<unat n. set (a' ! k) \<subseteq> set is \<union> set (a1 ! k)"
        "\<forall>i\<in>set is. \<forall>ci\<in>set (costs (ec ! i)). unat (ci - 1) < unat n" by auto
      from a1(3) a'(3) have "\<forall>k<unat n. set (a' ! k) \<subseteq> set (i # is) \<union> set (a ! k)" by auto
      moreover from ids a'(4) have "\<forall>j\<in>set (i # is). \<forall>ci\<in>set (costs (ec ! j)). unat (ci - 1) < unat n"
        by (simp add: unat_pred_less)
      ultimately show ?thesis using False F2 a1(1) a'(1,2) by simp
    qed
  qed
qed

lemma edges_safe:
  assumes "length a = unat n" and "\<forall>i\<in>set is. 0 \<notin> set (costs (ec ! i))"
  shows "foldE (edge_step n ec) is a \<noteq> Inl OutOfBounds"
  using assms
proof (induction "is" arbitrary: a)
  case Nil
  then show ?case by simp
next
  case (Cons i "is")
  show ?case
  proof (cases "\<exists>ci\<in>set (costs (ec ! i)). n < ci")
    case True
    with edge_step_cases [OF Cons.prems(1), of ec i] show ?thesis by auto
  next
    case False
    with Cons.prems(2) have "\<forall>ci\<in>set (costs (ec ! i)). ci \<noteq> 0 \<and> ci \<le> n"
      by (auto simp: not_less)
    with edge_step_cases [OF Cons.prems(1), of ec i]
    obtain a1 where a1: "edge_step n ec i a = Inr a1" "length a1 = unat n" by auto
    from Cons.IH [OF a1(2)] Cons.prems(2) a1(1) show ?thesis by simp
  qed
qed

definition edge_id_too_large :: "example list \<Rightarrow> bool" where
  "edge_id_too_large ec \<longleftrightarrow>
     (\<exists>e\<in>set ec. example_is_edge e \<and> (\<exists>ci\<in>set (costs e). nodes ec < unat ci))"

text \<open>
  The outcome of \<open>setup\<close> on an episode of fewer than \<open>2 ^ 32\<close> examples, whenever
  no access leaves its array.
\<close>

lemma setup_count:
  assumes "length ec < 2 ^ 32" and "count_records ec (setup_globals all D) \<noteq> Inl OutOfBounds"
  shows "if node_after_edge ec then count_records ec (setup_globals all D) = Inl NodeAfterEdge
         else (\<exists>D2. count_records ec (setup_globals all D) = Inr D2 \<and> unat (N D2) = nodes ec
                 \<and> unat (E D2) = length ec - nodes ec \<and> K D2 = K D)"
proof -
  let ?D = "setup_globals all D"
  have g: "E ?D = 0" "N ?D = 0" "K ?D = K D"
    by (simp_all add: setup_globals_def)
  from assms have 2: "unat (E ?D) + length ec < 2 ^ 32" "unat (N ?D) + length ec < 2 ^ 32"
    by (simp_all add: g)
  show ?thesis
  proof (cases "node_after_edge ec")
    case True
    with count_records_cases [OF assms(2) 2] show ?thesis by simp
  next
    case False
    with count_records_cases [OF assms(2) 2] obtain D2 where D2: "count_records ec ?D = Inr D2"
      "unat (N D2) = nodes ec" "unat (E D2) = length ec - nodes ec"
      by (auto simp: g)
    from count_records_frame [OF D2(1)] have "K D2 = K D" by (simp add: g)
    with D2 False show ?thesis by simp
  qed
qed

lemma setup_not_oob:
  assumes "setup_task all D ec \<noteq> Inl OutOfBounds"
  shows "count_records ec (setup_globals all D) \<noteq> Inl OutOfBounds"
    and "count_records ec (setup_globals all D) = Inr D2 \<Longrightarrow> \<not> (N D2 = 0 \<and> 0 < E D2) \<Longrightarrow>
           foldE (edge_step (N D2) ec) [unat (N D2)..<length ec] (replicate (unat (N D2)) [])
             \<noteq> Inl OutOfBounds"
  using assms by (auto simp: setup_task_def split: sum.splits if_splits)

lemma setup_edge_range:
  assumes "\<not> node_after_edge ec"
  shows "set (drop (nodes ec) ec) = {e \<in> set ec. example_is_edge e}"
proof -
  have "e \<in> set (drop (nodes ec) ec) \<longleftrightarrow> e \<in> set ec \<and> example_is_edge e" for e
  proof
    assume "e \<in> set (drop (nodes ec) ec)"
    then obtain j where j: "j < length ec - nodes ec" "e = ec ! (nodes ec + j)"
      by (auto simp: in_set_conv_nth)
    with nodes_first [OF assms, of "nodes ec + j"] show "e \<in> set ec \<and> example_is_edge e"
      by simp
  next
    assume "e \<in> set ec \<and> example_is_edge e"
    then obtain j where j: "j < length ec" "ec ! j = e" "example_is_edge e"
      by (auto simp: in_set_conv_nth)
    with nodes_first [OF assms, of j] have "nodes ec \<le> j" by simp
    with j have "e = drop (nodes ec) ec ! (j - nodes ec)" "j - nodes ec < length (drop (nodes ec) ec)"
      by simp_all
    then show "e \<in> set (drop (nodes ec) ec)" by (metis nth_mem)
  qed
  then show ?thesis by blast
qed

lemma too_large_range:
  assumes "\<not> node_after_edge ec" and "unat n = nodes ec"
  shows "(\<exists>i\<in>set [nodes ec..<length ec]. \<exists>ci\<in>set (costs (ec ! i)). n < ci) \<longleftrightarrow> edge_id_too_large ec"
proof -
  have "(\<exists>i\<in>set [nodes ec..<length ec]. \<exists>ci\<in>set (costs (ec ! i)). n < ci)
      \<longleftrightarrow> (\<exists>e\<in>set (drop (nodes ec) ec). \<exists>ci\<in>set (costs e). n < ci)"
  proof
    assume "\<exists>i\<in>set [nodes ec..<length ec]. \<exists>ci\<in>set (costs (ec ! i)). n < ci"
    then obtain i ci where i: "nodes ec \<le> i" "i < length ec" "ci \<in> set (costs (ec ! i))" "n < ci"
      by auto
    then have "ec ! i = drop (nodes ec) ec ! (i - nodes ec)" "i - nodes ec < length (drop (nodes ec) ec)"
      by simp_all
    then have "ec ! i \<in> set (drop (nodes ec) ec)" by (metis nth_mem)
    with i show "\<exists>e\<in>set (drop (nodes ec) ec). \<exists>ci\<in>set (costs e). n < ci" by blast
  next
    assume "\<exists>e\<in>set (drop (nodes ec) ec). \<exists>ci\<in>set (costs e). n < ci"
    then obtain e ci where e: "e \<in> set (drop (nodes ec) ec)" "ci \<in> set (costs e)" "n < ci"
      by blast
    from e(1) obtain j where "j < length ec - nodes ec" "e = ec ! (nodes ec + j)"
      by (auto simp: in_set_conv_nth)
    with e have j: "j < length ec - nodes ec" "ci \<in> set (costs (ec ! (nodes ec + j)))" "n < ci"
      by simp_all
    then have "nodes ec + j \<in> set [nodes ec..<length ec]" by simp
    with j show "\<exists>i\<in>set [nodes ec..<length ec]. \<exists>ci\<in>set (costs (ec ! i)). n < ci" by blast
  qed
  with setup_edge_range [OF assms(1)] assms(2) show ?thesis
    by (auto simp: edge_id_too_large_def word_less_nat_alt)
qed

lemma graph_okI:
  assumes "length a = nn" and "\<forall>k<nn. set (a ! k) \<subseteq> {nn..<length ec}"
    and "\<forall>i\<in>{nn..<length ec}. \<forall>ci\<in>set (costs (ec ! i)). unat (ci - 1) < nn"
  shows "graph_ok nn a ec"
  unfolding graph_ok_def
proof (intro conjI allI impI ballI)
  show "length a = nn" by (rule assms(1))
next
  fix k i assume "k < nn" and "i \<in> set (a ! k)"
  with assms(2) have i: "i \<in> {nn..<length ec}" by blast
  then show "i < length ec" by simp
  fix ci assume "ci \<in> set (costs (ec ! i))"
  with assms(3) i show "unat (ci - 1) < nn" by blast
qed

lemma setup_cases:
  assumes "length ec < 2 ^ 32" and "setup_task all D ec \<noteq> Inl OutOfBounds"
  shows "if node_after_edge ec then setup_task all D ec = Inl NodeAfterEdge
         else if nodes ec = 0 then setup_task all D ec = Inl EdgesWithoutNodes
         else if edge_id_too_large ec then setup_task all D ec = Inl NodeIdTooLarge
         else (\<exists>D'. setup_task all D ec = Inr D' \<and> unat (N D') = nodes ec
                 \<and> length (bfs D') = nodes ec \<and> distinct (bfs D')
                 \<and> unat ` set (bfs D') = {0..<nodes ec} \<and> bfs D' ! 0 = 0
                 \<and> pred D' = replicate (nodes ec) (K D + 1) \<and> graph_ok (nodes ec) (adj D') ec)"
proof (cases "node_after_edge ec")
  case True
  with setup_count [OF assms(1) setup_not_oob(1) [OF assms(2)]] show ?thesis
    by (simp add: setup_task_def)
next
  case nae: False
  with setup_count [OF assms(1) setup_not_oob(1) [OF assms(2)]]
  obtain D2 where D2: "count_records ec (setup_globals all D) = Inr D2" "unat (N D2) = nodes ec"
    "unat (E D2) = length ec - nodes ec" "K D2 = K D" by auto
  show ?thesis
  proof (cases "nodes ec = 0")
    case True
    with D2(2) have N0: "N D2 = 0" by (simp add: unat_eq_0)
    have "0 < E D2"
    proof (rule ccontr)
      assume "\<not> 0 < E D2"
      then have "E D2 = 0" by (simp add: word_gt_0)
      with D2(3) True have "ec = []" by simp
      with assms(2) show False by (simp add: setup_task_def setup_globals_def run_bfs_def)
    qed
    with N0 D2(1) True nae show ?thesis by (simp add: setup_task_def)
  next
    case False
    with D2(2) have nz: "N D2 \<noteq> 0" by auto
    then have nofail: "\<not> (N D2 = 0 \<and> 0 < E D2)" by simp
    note e = edges_cases [OF setup_not_oob(2) [OF assms(2) D2(1) nofail], simplified]
    show ?thesis
    proof (cases "edge_id_too_large ec")
      case True
      with too_large_range [OF nae D2(2)] e D2(2)
      have "foldE (edge_step (N D2) ec) [unat (N D2)..<length ec] (replicate (unat (N D2)) [])
          = Inl NodeIdTooLarge" by auto
      with D2(1) nz nae False True show ?thesis by (simp add: setup_task_def)
    next
      case tl: False
      with too_large_range [OF nae D2(2)] e D2(2)
      obtain a where a: "foldE (edge_step (N D2) ec) [unat (N D2)..<length ec] (replicate (unat (N D2)) [])
          = Inr a" "length a = unat (N D2)"
        "\<forall>k<unat (N D2). set (a ! k) \<subseteq> {unat (N D2)..<length ec}"
        "\<forall>i\<in>{unat (N D2)..<length ec}. \<forall>ci\<in>set (costs (ec ! i)). unat (ci - 1) < unat (N D2)"
        by auto
      have gok: "graph_ok (unat (N D2)) a ec"
        by (rule graph_okI [OF a(2,3,4)])
      from run_bfs_perm [of "D2\<lparr>adj := a\<rparr>" ec] gok nz
      obtain b where b: "run_bfs (D2\<lparr>adj := a\<rparr>) ec = Inr (D2\<lparr>adj := a, bfs := b\<rparr>)"
        "length b = unat (N D2)" "distinct b" "unat ` set b = {0..<unat (N D2)}" "b ! 0 = 0"
        by auto
      from D2 nz a(1) b gok nae False tl show ?thesis
        by (simp add: setup_task_def)
    qed
  qed
qed

definition ids_nonzero :: "example list \<Rightarrow> bool" where
  "ids_nonzero ec \<longleftrightarrow> (\<forall>e\<in>set ec. example_is_edge e \<longrightarrow> 0 \<notin> set (costs e))"

lemma setup_safe:
  assumes "length ec < 2 ^ 32" and "labels_in_range D ec" and "ids_nonzero ec" and "ec \<noteq> []"
  shows "setup_task all D ec \<noteq> Inl OutOfBounds"
proof -
  let ?D = "setup_globals all D"
  have "labels_in_range ?D ec" using assms(2) by (simp add: labels_in_range_def setup_globals_def)
  note c = count_records_safe [OF this]
  show ?thesis
  proof (cases "node_after_edge ec")
    case True
    with setup_count [OF assms(1) c] show ?thesis by (simp add: setup_task_def)
  next
    case nae: False
    with setup_count [OF assms(1) c]
    obtain D2 where D2: "count_records ec ?D = Inr D2" "unat (N D2) = nodes ec"
      "unat (E D2) = length ec - nodes ec" by auto
    show ?thesis
    proof (cases "N D2 = 0 \<and> 0 < E D2")
      case True
      with D2(1) show ?thesis by (simp add: setup_task_def)
    next
      case False
      have nz: "N D2 \<noteq> 0"
      proof
        assume z: "N D2 = 0"
        with False have "E D2 = 0" by (simp add: word_gt_0)
        with z D2(2,3) assms(4) show False by simp
      qed
      have "\<forall>i\<in>set [unat (N D2)..<length ec]. 0 \<notin> set (costs (ec ! i))"
      proof
        fix i assume "i \<in> set [unat (N D2)..<length ec]"
        with D2(2) have i: "nodes ec \<le> i" "i < length ec" by auto
        with nodes_first [OF nae, of i] have "example_is_edge (ec ! i)" by simp
        with assms(3) i(2) show "0 \<notin> set (costs (ec ! i))"
          unfolding ids_nonzero_def by (metis nth_mem)
      qed
      then have es: "foldE (edge_step (N D2) ec) [unat (N D2)..<length ec] (replicate (unat (N D2)) [])
          \<noteq> Inl OutOfBounds"
        by (intro edges_safe) simp_all
      note e = edges_cases [OF es, simplified]
      show ?thesis
      proof (cases "\<exists>i\<in>{unat (N D2)..<length ec}. \<exists>ci\<in>set (costs (ec ! i)). N D2 < ci")
        case True
        with e D2(1) False show ?thesis by (simp add: setup_task_def)
      next
        case tl: False
        with e obtain a where a: "foldE (edge_step (N D2) ec) [unat (N D2)..<length ec]
            (replicate (unat (N D2)) []) = Inr a" "length a = unat (N D2)"
          "\<forall>k<unat (N D2). set (a ! k) \<subseteq> {unat (N D2)..<length ec}"
          "\<forall>i\<in>{unat (N D2)..<length ec}. \<forall>ci\<in>set (costs (ec ! i)). unat (ci - 1) < unat (N D2)"
          by auto
        have gok: "graph_ok (unat (N D2)) a ec"
          by (rule graph_okI [OF a(2,3,4)])
        from run_bfs_perm [of "D2\<lparr>adj := a\<rparr>" ec] gok nz
        obtain b where "run_bfs (D2\<lparr>adj := a\<rparr>) ec = Inr (D2\<lparr>adj := a, bfs := b\<rparr>)" by auto
        with D2(1) False a(1) show ?thesis by (simp add: setup_task_def)
      qed
    qed
  qed
qed

lemma setup_empty: "setup_task all D [] = Inl OutOfBounds"
  by (simp add: setup_task_def setup_globals_def run_bfs_def)

text \<open>The task data that \<open>setup\<close> leaves when it raises.\<close>

lemma foldS_outcome: "foldE f xs s = outcome (foldS f xs s)"
  by (induction xs arbitrary: s) (auto simp: outcome_def split: sum.splits)

lemma count_state_outcome: "count_records ec D = outcome (count_state ec D)"
  by (induction ec arbitrary: D) (auto simp: outcome_def Let_def split: option.splits)

lemma count_state_frame:
  "adj (fst (count_state ec D)) = adj D \<and> bfs (fst (count_state ec D)) = bfs D
   \<and> pred (fst (count_state ec D)) = pred D"
  by (induction ec arbitrary: D) (auto simp: Let_def)

lemma setup_state_outcome: "setup_task all D ec = outcome (setup_state all D ec)"
  unfolding setup_task_def setup_state_def count_state_outcome foldS_outcome
  by (auto simp: outcome_def split: prod.splits option.splits sum.splits)

lemma foldS_upt_Some:
  assumes "foldS f [lo..<hi] s = (s', Some e)"
  shows "\<exists>j. lo \<le> j \<and> j < hi \<and> foldE f [lo..<j] s = Inr s' \<and> f j s' = Inl e"
  using assms
proof (induction "hi - lo" arbitrary: lo s)
  case 0
  then show ?case by simp
next
  case (Suc d)
  then have lt: "lo < hi" by simp
  then have u: "[lo..<hi] = lo # [Suc lo..<hi]" by (simp add: upt_conv_Cons)
  show ?case
  proof (cases "f lo s")
    case (Inl e')
    with Suc.prems u have "s' = s" "e' = e" by simp_all
    with Inl lt show ?thesis by (intro exI [of _ lo]) simp
  next
    case (Inr t)
    with Suc.prems u have rest: "foldS f [Suc lo..<hi] t = (s', Some e)" by simp
    from Suc.hyps(2) lt have "d = hi - Suc lo" by simp
    from Suc.hyps(1) [OF this rest] obtain j where j: "Suc lo \<le> j" "j < hi"
      "foldE f [Suc lo..<j] t = Inr s'" "f j s' = Inl e" by blast
    from j(1) have "[lo..<j] = lo # [Suc lo..<j]" by (simp add: upt_conv_Cons)
    with Inr j show ?thesis by (intro exI [of _ j]) simp
  qed
qed

lemma edge_step_too_large:
  assumes "edge_step n ec j a = Inl NodeIdTooLarge" and "length a = unat n"
  shows "\<exists>ci\<in>set (costs (ec ! j)). unat n < unat ci"
proof (rule ccontr)
  assume no: "\<not> (\<exists>ci\<in>set (costs (ec ! j)). unat n < unat ci)"
  then have no': "\<not> (\<exists>ci\<in>set (costs (ec ! j)). n < ci)" by (simp add: word_less_nat_alt)
  show False
  proof (cases "0 \<in> set (costs (ec ! j))")
    case True
    with edge_step_cases [OF assms(2), of ec j] no' assms(1) show False by simp
  next
    case False
    with no' have "\<forall>ci\<in>set (costs (ec ! j)). ci \<noteq> 0 \<and> ci \<le> n" by (auto simp: not_less)
    with edge_step_cases [OF assms(2), of ec j] assms(1) show False by auto
  qed
qed

lemma setup_state_cases:
  assumes "length ec < 2 ^ 32" and "setup_task all D ec \<noteq> Inl OutOfBounds"
  shows "if node_after_edge ec
         then snd (setup_state all D ec) = Some NodeAfterEdge
              \<and> adj (fst (setup_state all D ec)) = adj D
              \<and> bfs (fst (setup_state all D ec)) = bfs D \<and> pred (fst (setup_state all D ec)) = pred D
         else if nodes ec = 0
         then snd (setup_state all D ec) = Some EdgesWithoutNodes
              \<and> adj (fst (setup_state all D ec)) = adj D
              \<and> bfs (fst (setup_state all D ec)) = bfs D \<and> pred (fst (setup_state all D ec)) = pred D
         else if edge_id_too_large ec
         then snd (setup_state all D ec) = Some NodeIdTooLarge
              \<and> bfs (fst (setup_state all D ec)) = bfs D \<and> pred (fst (setup_state all D ec)) = pred D
              \<and> (\<exists>j. nodes ec \<le> j \<and> j < length ec
                    \<and> (\<exists>ci\<in>set (costs (ec ! j)). nodes ec < unat ci)
                    \<and> foldE (edge_step (word_of_nat (nodes ec)) ec) [nodes ec..<j]
                          (replicate (nodes ec) []) = Inr (adj (fst (setup_state all D ec))))
         else snd (setup_state all D ec) = None"
proof -
  let ?G = "setup_globals all D"
  have g: "adj ?G = adj D" "bfs ?G = bfs D" "pred ?G = pred D" by (simp_all add: setup_globals_def)
  note fr = count_state_frame [of ec ?G, unfolded g]
  note c = setup_cases [OF assms]
  note o = setup_state_outcome [of all D ec]
  show ?thesis
  proof (cases "node_after_edge ec")
    case True
    with setup_count [OF assms(1) setup_not_oob(1) [OF assms(2)]]
    have "count_records ec ?G = Inl NodeAfterEdge" by simp
    then have "snd (count_state ec ?G) = Some NodeAfterEdge"
      unfolding count_state_outcome by (auto simp: outcome_def split: option.splits)
    then have "setup_state all D ec = (fst (count_state ec ?G), Some NodeAfterEdge)"
      by (cases "count_state ec ?G") (simp add: setup_state_def)
    with True fr show ?thesis by simp
  next
    case nae: False
    with setup_count [OF assms(1) setup_not_oob(1) [OF assms(2)]]
    obtain D2 where D2: "count_records ec ?G = Inr D2" "unat (N D2) = nodes ec"
      "unat (E D2) = length ec - nodes ec" by auto
    from D2(1) have cs: "count_state ec ?G = (D2, None)"
      unfolding count_state_outcome
      by (cases "count_state ec ?G") (auto simp: outcome_def split: option.splits)
    with fr have fr2: "adj D2 = adj D" "bfs D2 = bfs D" "pred D2 = pred D" by simp_all
    have nw: "N D2 = word_of_nat (nodes ec)" using D2(2) [symmetric] by simp
    show ?thesis
    proof (cases "nodes ec = 0")
      case True
      with D2(2) have N0: "N D2 = 0" by (simp add: unat_eq_0)
      have "0 < E D2"
      proof (rule ccontr)
        assume "\<not> 0 < E D2"
        then have "E D2 = 0" by (simp add: word_gt_0)
        with D2(3) True have "ec = []" by simp
        with assms(2) show False by (simp add: setup_empty)
      qed
      with N0 have "N D2 = 0 \<and> 0 < E D2" by simp
      with cs have "setup_state all D ec = (D2, Some EdgesWithoutNodes)"
        by (simp add: setup_state_def)
      with nae True fr2 show ?thesis by simp
    next
      case nz: False
      with D2(2) have nofail: "\<not> (N D2 = 0 \<and> 0 < E D2)" by auto
      show ?thesis
      proof (cases "edge_id_too_large ec")
        case True
        note e = edges_cases [OF setup_not_oob(2) [OF assms(2) D2(1) nofail], simplified]
        from True too_large_range [OF nae D2(2)] e D2(2)
        have fe: "foldE (edge_step (N D2) ec) [unat (N D2)..<length ec] (replicate (unat (N D2)) [])
            = Inl NodeIdTooLarge" by auto
        then obtain a where fs: "foldS (edge_step (N D2) ec) [unat (N D2)..<length ec]
            (replicate (unat (N D2)) []) = (a, Some NodeIdTooLarge)"
          unfolding foldS_outcome
          by (cases "foldS (edge_step (N D2) ec) [unat (N D2)..<length ec] (replicate (unat (N D2)) [])")
             (auto simp: outcome_def split: option.splits)
        from foldS_upt_Some [OF fs] obtain j where j: "unat (N D2) \<le> j" "j < length ec"
          "foldE (edge_step (N D2) ec) [unat (N D2)..<j] (replicate (unat (N D2)) []) = Inr a"
          "edge_step (N D2) ec j a = Inl NodeIdTooLarge" by blast
        from j(3) have "foldE (edge_step (N D2) ec) [unat (N D2)..<j] (replicate (unat (N D2)) [])
            \<noteq> Inl OutOfBounds" by simp
        from edges_cases [OF this] j(3) have la: "length a = unat (N D2)"
          by (auto split: if_splits)
        from edge_step_too_large [OF j(4) la] have big: "\<exists>ci\<in>set (costs (ec ! j)). nodes ec < unat ci"
          by (simp add: D2(2))
        from cs nofail fs have "setup_state all D ec = (D2\<lparr>adj := a\<rparr>, Some NodeIdTooLarge)"
          by (simp add: setup_state_def)
        with nae nz True fr2 j big show ?thesis
          by (auto simp: D2(2) nw [symmetric])
      next
        case False
        with c nae nz obtain D' where "setup_task all D ec = Inr D'" by auto
        then have "snd (setup_state all D ec) = None"
          unfolding setup_state_outcome by (auto simp: outcome_def split: option.splits)
        with nae nz False show ?thesis by simp
      qed
    qed
  qed
qed

section \<open>Concrete episodes\<close>

text \<open>
  The features of the active namespaces of an example, in order: what
  \<open>GD::foreach_feature\<close> visits when no offset and no interaction is configured.
\<close>

definition atomic_features :: "example \<Rightarrow> feature list" where
  "atomic_features e = concat (map (atomics e) (indices e))"

text \<open>
  An example with the costs \<open>cs\<close> and one feature \<open>f\<close> in the namespace \<open>ns\<close>, with the
  sum of squares \<open>sq\<close>.
\<close>

definition single_feature_example :: "u32 list \<Rightarrow> u8 \<Rightarrow> feature \<Rightarrow> float \<Rightarrow> example" where
  "single_feature_example cs ns f sq =
     \<lparr>costs = cs, indices = [ns], atomics = (\<lambda>i. if i = ns then [f] else []),
      sum_feat_sq = (\<lambda>i. if i = ns then sq else 0), total_sum_feat_sq = sq, num_features = 1\<rparr>"

text \<open>
  A host with \<open>2 ^ 18\<close> weights, stride 1, the neighbor namespace 131, the given pairs and
  signedness of \<open>char\<close>.
\<close>

definition plain_vw :: "(u8 \<times> u8) list \<Rightarrow> bool \<Rightarrow> vw" where
  "plain_vw ps sg =
     \<lparr>weight_mask = 262143, vw_wpp = 1, stride_shift = 0, pairs = ps, char_signed = sg,
      neighbor_namespace = 131, foreach_feature = atomic_features\<rparr>"

text \<open>A host search that always asks for the example and always predicts \<open>a\<close>.\<close>

definition constant_search :: "u32 \<Rightarrow> search" where
  "constant_search a = \<lparr>predictNeedsExample = (\<lambda>_. True), predict = (\<lambda>_ _. a)\<rparr>"

text \<open>Two labelled nodes and the edge between them.\<close>

definition two_nodes_one_edge :: "example list" where
  "two_nodes_one_edge =
     [single_feature_example [1] 97 (1, 5) 1, single_feature_example [2] 97 (1, 7) 1,
      single_feature_example [1, 2] 101 (1, 9) 1]"

text \<open>Two nodes and an edge that refers to a third node.\<close>

definition edge_to_missing_node :: "example list" where
  "edge_to_missing_node =
     [single_feature_example [1] 97 (1, 5) 1, single_feature_example [2] 97 (1, 7) 1,
      single_feature_example [1, 3] 101 (1, 9) 1]"

text \<open>Two nodes, the edge between them, and an edge that refers to a third node.\<close>

definition second_edge_to_missing_node :: "example list" where
  "second_edge_to_missing_node =
     [single_feature_example [1] 97 (1, 5) 1, single_feature_example [2] 97 (1, 7) 1,
      single_feature_example [1, 2] 101 (1, 9) 1, single_feature_example [1, 3] 101 (1, 9) 1]"

text \<open>Five unlabelled nodes with the edges \<open>{1, 2}\<close> and \<open>{3, 4}\<close>; node 5 has no edge.\<close>

definition two_components :: "example list" where
  "two_components =
     [single_feature_example [] 97 (1, 1) 1, single_feature_example [] 97 (1, 2) 1,
      single_feature_example [] 97 (1, 3) 1, single_feature_example [] 97 (1, 4) 1,
      single_feature_example [] 97 (1, 5) 1,
      single_feature_example [3, 4] 101 (1, 9) 1, single_feature_example [1, 2] 101 (1, 9) 1]"

definition default_options :: options where
  "default_options = \<lparr>search_graph_num_loops = None, search_graph_no_structure = False,
     search_graph_separate_learners = False\<rparr>"

text \<open>Two unlabelled nodes and the edge between them.\<close>

definition unlabelled_pair :: "example list" where
  "unlabelled_pair =
     [single_feature_example [] 97 (1, 5) 1, single_feature_example [] 97 (1, 7) 1,
      single_feature_example [1, 2] 101 (1, 9) 1]"

text \<open>
  Four nodes with the labels 4, 1, 2 and 3, and the edge between the second and the
  third.
\<close>

definition labelled_first_node :: "example list" where
  "labelled_first_node =
     [single_feature_example [4] 97 (1, 5) 1, single_feature_example [1] 97 (1, 6) 1,
      single_feature_example [2] 97 (1, 7) 1, single_feature_example [3] 97 (1, 8) 1,
      single_feature_example [2, 3] 101 (1, 9) 1]"

text \<open>
  Two nodes and their edge, where the feature of the first node has the value of the
  \<open>float\<close> 0.1 and the sum of squares that goes with it.
\<close>

definition tenth_valued_node :: "example list" where
  "tenth_valued_node =
     [single_feature_example [1] 97 (13421773 / 134217728, 5) (10737419 / 1073741824),
      single_feature_example [2] 97 (1, 7) 1,
      single_feature_example [1, 2] 101 (1, 9) 1]"

text \<open>The task data that \<open>setup\<close> returns.\<close>

definition task_data_of :: "error + task_data \<Rightarrow> task_data" where
  "task_data_of r = (case r of Inl e \<Rightarrow> new_task_data | Inr D \<Rightarrow> D)"

text \<open>
  The task data of the episode of four nodes after a run in which every node was
  predicted 1.
\<close>

definition previous_predictions :: "task_data" where
  "previous_predictions =
     (task_data_of (setup_task (plain_vw [] True) (fst (initialize default_options 4))
        labelled_first_node))\<lparr>pred := [1, 1, 1, 1]\<rparr>"

lemma replicate_numeral: "replicate (numeral k) y = y # replicate (pred_numeral k) y"
  by (simp add: numeral_eq_Suc)

lemmas setup_defs = setup_task_def setup_globals_def example_is_edge_def
  edge_step_def add_adj_def run_bfs_def bfs_outer.simps bfs_inner.simps expand_def visit_def
  initialize_def new_task_data_def

lemmas pass_defs = run_def run_passes_def run_reset_def run_pass_def pass_loop.simps predict_node_def
  add_conditions_def condition_on_def add_edge_features_def add_edge_def histogram_def
  count_neighbor_def size_t_sub_def add_edge_features_single_fn_def
  add_edge_features_group_fn_def push_neighbor_def bucket_def add_pair_def char_to_int_def
  del_edge_features_def count_confusion_def IDX_def

lemmas run_defs = pass_defs macro_f_def macro_f_label_def macro_f_sums_def

lemmas episode_defs = atomic_features_def single_feature_example_def plain_vw_def
  constant_search_def two_nodes_one_edge_def edge_to_missing_node_def two_components_def
  default_options_def unlabelled_pair_def labelled_first_node_def tenth_valued_node_def

lemmas eval_simps = Let_def float_int_simps replicate_numeral upt_conv_Cons

section \<open>Single-pass tasks\<close>

text \<open>
  Claim C10. When the option \<open>search_graph_num_loops\<close> is given as 0 or 1,
  \<open>initialize\<close> sets \<open>num_loops\<close> to 1 and \<open>separate_learners\<close> to false whether or not
  \<open>search_graph_separate_learners\<close> was given, and does not call \<open>set_num_learners\<close>;
  every prediction of every run on an episode set up from this task data is then
  requested without a learner id, that is from the one shared model.
\<close>

theorem single_pass_shares_one_model:
  assumes "search_graph_num_loops vm = Some v" and "v \<le> 1"
  shows "num_loops (fst (initialize vm na)) = 1
       \<and> \<not> separate_learners (fst (initialize vm na))
       \<and> snd (initialize vm na) = None
       \<and> (\<forall>all sch ec D D' ec' reqs.
            setup_task all (fst (initialize vm na)) ec = Inr D
            \<longrightarrow> run_passes all sch D ec = Inr (D', ec', reqs)
            \<longrightarrow> (\<forall>r\<in>set reqs. learner_id r = None))"
proof -
  have i: "num_loops (fst (initialize vm na)) = 1 \<and> \<not> separate_learners (fst (initialize vm na))
      \<and> snd (initialize vm na) = None"
    using assms by (simp add: initialize_def Let_def new_task_data_def)
  have "\<forall>r\<in>set reqs. learner_id r = None"
    if s: "setup_task all (fst (initialize vm na)) ec = Inr D"
      and r: "run_passes all sch D ec = Inr (D', ec', reqs)" for all sch ec D D' ec' reqs
  proof -
    from setup_task_frame [OF s] i have "\<not> separate_learners D" by simp
    from run_learner_ids [OF r this] show ?thesis .
  qed
  with i show ?thesis by blast
qed

theorem single_pass_shares_one_model_witness:
  "search_graph_num_loops \<lparr>search_graph_num_loops = Some 1, search_graph_no_structure = False,
       search_graph_separate_learners = True\<rparr> = Some 1
   \<and> (1::nat) \<le> 1
   \<and> (\<exists>D D' ec' reqs.
         setup_task (plain_vw [] True)
           (fst (initialize \<lparr>search_graph_num_loops = Some 1, search_graph_no_structure = False,
                   search_graph_separate_learners = True\<rparr> 2)) two_nodes_one_edge = Inr D
         \<and> run_passes (plain_vw [] True) (constant_search 1) D two_nodes_one_edge = Inr (D', ec', reqs)
         \<and> map learner_id reqs = [None, None])"
  using single_pass_shares_one_model [of "\<lparr>search_graph_num_loops = Some 1,
      search_graph_no_structure = False, search_graph_separate_learners = True\<rparr>" 1 2]
  apply (simp add: setup_defs episode_defs eval_simps)
  apply (simp add: run_defs episode_defs eval_simps)
  done

section \<open>Validation of edge ids\<close>

text \<open>
  Claim C9. For an edge example and an adjacency array of \<open>N\<close> entries: the validation
  in \<open>setup\<close> raises exactly when the edge refers to an id greater than \<open>N\<close>. When
  every id is at most \<open>N\<close>, an id 0 passes the validation and the construction of the
  adjacency then fails with an access outside the array, at the index \<open>0 - 1\<close> of
  32-bit arithmetic, 4294967295, which no array of \<open>N\<close> entries has; the construction
  stays inside the array exactly when every id lies in \<open>1 .. N\<close>.
\<close>

theorem edge_id_zero_is_not_validated:
  assumes "length a = unat n"
  shows "(edge_step n ec i a = Inl NodeIdTooLarge \<longleftrightarrow> (\<exists>ci\<in>set (costs (ec ! i)). n < ci))
       \<and> ((\<forall>ci\<in>set (costs (ec ! i)). ci \<le> n) \<longrightarrow>
            (0 \<in> set (costs (ec ! i)) \<longrightarrow> edge_step n ec i a = Inl OutOfBounds)
            \<and> ((\<exists>a'. edge_step n ec i a = Inr a') \<longleftrightarrow> (\<forall>ci\<in>set (costs (ec ! i)). 1 \<le> ci \<and> ci \<le> n)))
       \<and> unat ((0::u32) - 1) = 4294967295 \<and> length a \<le> unat ((0::u32) - 1)"
proof -
  note c = edge_step_cases [OF assms, of ec i]
  have m: "unat ((0::u32) - 1) = 4294967295"
    by (simp add: unsigned_minus_1_eq_mask mask_eq_exp_minus_1)
  have "unat n < 2 ^ 32" using unsigned_less [of n, where 'a = nat] by simp
  with assms m have l: "length a \<le> unat ((0::u32) - 1)" by simp
  have one: "1 \<le> ci \<longleftrightarrow> ci \<noteq> 0" for ci :: u32
    by (simp add: word_le_nat_alt unat_eq_0 Suc_le_eq unat_gt_0)
  have 1: "edge_step n ec i a = Inl NodeIdTooLarge \<longleftrightarrow> (\<exists>ci\<in>set (costs (ec ! i)). n < ci)"
  proof
    assume f: "edge_step n ec i a = Inl NodeIdTooLarge"
    show "\<exists>ci\<in>set (costs (ec ! i)). n < ci"
    proof (rule ccontr)
      assume no: "\<not> (\<exists>ci\<in>set (costs (ec ! i)). n < ci)"
      show False
      proof (cases "0 \<in> set (costs (ec ! i))")
        case True
        with c no f show False by simp
      next
        case False
        with no have "\<forall>ci\<in>set (costs (ec ! i)). ci \<noteq> 0 \<and> ci \<le> n" by (auto simp: not_less)
        with c f show False by auto
      qed
    qed
  next
    assume "\<exists>ci\<in>set (costs (ec ! i)). n < ci"
    with c show "edge_step n ec i a = Inl NodeIdTooLarge" by simp
  qed
  have 2: "(0 \<in> set (costs (ec ! i)) \<longrightarrow> edge_step n ec i a = Inl OutOfBounds)
      \<and> ((\<exists>a'. edge_step n ec i a = Inr a') \<longleftrightarrow> (\<forall>ci\<in>set (costs (ec ! i)). 1 \<le> ci \<and> ci \<le> n))"
    if le: "\<forall>ci\<in>set (costs (ec ! i)). ci \<le> n"
  proof -
    from le have no: "\<not> (\<exists>ci\<in>set (costs (ec ! i)). n < ci)" by (auto simp: not_less)
    show ?thesis
    proof (cases "0 \<in> set (costs (ec ! i))")
      case True
      with c no have "edge_step n ec i a = Inl OutOfBounds" by simp
      moreover from True have "\<not> (\<forall>ci\<in>set (costs (ec ! i)). 1 \<le> ci \<and> ci \<le> n)"
        by (auto simp: one)
      ultimately show ?thesis by simp
    next
      case False
      with le have "\<forall>ci\<in>set (costs (ec ! i)). ci \<noteq> 0 \<and> ci \<le> n" by auto
      with c False show ?thesis by (auto simp: one)
    qed
  qed
  from 1 2 m l show ?thesis by blast
qed

theorem edge_id_zero_is_not_validated_witness:
  "length [[] :: nat list] = unat (1 :: u32)
   \<and> \<not> (\<exists>ci\<in>set (costs ([single_feature_example [1] 97 (1, 5) 1,
                               single_feature_example [0, 1] 101 (1, 9) 1] ! 1)). (1 :: u32) < ci)
   \<and> edge_step 1 [single_feature_example [1] 97 (1, 5) 1,
                  single_feature_example [0, 1] 101 (1, 9) 1] 1 [[]] = Inl OutOfBounds
   \<and> (\<exists>D. setup_task (plain_vw [] True) (fst (initialize \<lparr>search_graph_num_loops = None,
           search_graph_no_structure = False, search_graph_separate_learners = False\<rparr> 2))
         [single_feature_example [1] 97 (1, 5) 1, single_feature_example [2] 97 (1, 7) 1,
          single_feature_example [1, 2] 101 (1, 9) 1] = Inr D \<and> adj D = [[2], [2]])
   \<and> setup_task (plain_vw [] True) (fst (initialize \<lparr>search_graph_num_loops = None,
           search_graph_no_structure = False, search_graph_separate_learners = False\<rparr> 2))
         [single_feature_example [1] 97 (1, 5) 1, single_feature_example [0, 1] 101 (1, 9) 1]
       = Inl OutOfBounds"
  using edge_id_zero_is_not_validated [of "[[]]" 1
      "[single_feature_example [1] 97 (1, 5) 1, single_feature_example [0, 1] 101 (1, 9) 1]" 1]
  by (simp add: setup_defs episode_defs eval_simps)

section \<open>Fatal errors of setup\<close>

text \<open>
  Claim C8, amended. For an episode of fewer than \<open>2 ^ 32\<close> examples on which \<open>setup\<close>
  makes no access outside an array (so whenever the label of every node indexes
  \<open>D.true_counts\<close> and no edge refers to the id 0): \<open>setup\<close> raises one of its fatal
  errors exactly when a node record comes after an edge record, or there is an edge
  record and no node record, or an edge refers to an id greater than the number \<open>N\<close> of
  node records. When it raises, the order \<open>D.bfs\<close> and the predictions \<open>D.pred\<close> are as
  they were before \<open>setup\<close>: nothing has been traversed or predicted. The adjacency
  \<open>D.adj\<close> is as it was before for the first two errors; for an edge id greater than \<open>N\<close>
  it has been replaced by \<open>N\<close> lists that hold the edge records before the first one
  with such an id. In particular an edge that refers to the id \<open>N + 1\<close> makes \<open>setup\<close>
  raise, and \<open>run\<close>, where augmentation and prediction happen, takes the task data
  \<open>setup\<close> returns.
\<close>

theorem setup_fatal_iff:
  assumes "length ec < 2 ^ 32"
    and "setup_task all D ec \<noteq> Inl OutOfBounds \<or> (labels_in_range D ec \<and> ids_nonzero ec)"
  shows "((\<exists>e. setup_task all D ec = Inl e \<and> is_fatal e) \<longleftrightarrow>
            node_after_edge ec \<or> (nodes ec = 0 \<and> (\<exists>e\<in>set ec. example_is_edge e))
            \<or> edge_id_too_large ec)
       \<and> setup_task all D ec = outcome (setup_state all D ec)
       \<and> ((\<exists>e. setup_task all D ec = Inl e \<and> is_fatal e) \<longrightarrow>
            bfs (fst (setup_state all D ec)) = bfs D \<and> pred (fst (setup_state all D ec)) = pred D
            \<and> (node_after_edge ec \<or> nodes ec = 0 \<longrightarrow> adj (fst (setup_state all D ec)) = adj D)
            \<and> (\<not> node_after_edge ec \<and> nodes ec \<noteq> 0 \<longrightarrow>
                 (\<exists>j. nodes ec \<le> j \<and> j < length ec
                    \<and> (\<exists>ci\<in>set (costs (ec ! j)). nodes ec < unat ci)
                    \<and> foldE (edge_step (word_of_nat (nodes ec)) ec) [nodes ec..<j]
                          (replicate (nodes ec) []) = Inr (adj (fst (setup_state all D ec))))))
       \<and> ((\<exists>e\<in>set ec. example_is_edge e \<and> word_of_nat (nodes ec + 1) \<in> set (costs e))
            \<longrightarrow> (\<exists>e. setup_task all D ec = Inl e \<and> is_fatal e))"
proof -
  have n1: "edge_id_too_large ec"
    if "\<exists>e\<in>set ec. example_is_edge e \<and> word_of_nat (nodes ec + 1) \<in> set (costs e)"
  proof -
    from that obtain e where "e \<in> set ec" "example_is_edge e" by blast
    then have "nodes ec < length ec" unfolding nodes_def by (intro length_filter_less) simp_all
    with assms(1) have "nodes ec + 1 < 2 ^ 32" by simp
    moreover have "unat (word_of_nat (nodes ec + 1) :: u32) = (nodes ec + 1) mod 2 ^ LENGTH(32)"
      by (rule unat_of_nat)
    ultimately have "nodes ec < unat (word_of_nat (nodes ec + 1) :: u32)"
      by simp
    with that show ?thesis unfolding edge_id_too_large_def by blast
  qed
  have iff: "(\<exists>e. setup_task all D ec = Inl e \<and> is_fatal e) \<longleftrightarrow>
            node_after_edge ec \<or> (nodes ec = 0 \<and> (\<exists>e\<in>set ec. example_is_edge e))
            \<or> edge_id_too_large ec"
  proof (cases "ec = []")
    case True
    then show ?thesis
      by (simp add: setup_empty is_fatal_def node_after_edge_Nil edge_id_too_large_def)
  next
    case False
    with assms(2) setup_safe [OF assms(1), of D all] have ok: "setup_task all D ec \<noteq> Inl OutOfBounds"
      by blast
    note c = setup_cases [OF assms(1) ok]
    have edges: "\<exists>e\<in>set ec. example_is_edge e" if "nodes ec = 0"
    proof -
      from that have "\<forall>e\<in>set ec. example_is_edge e"
        by (auto simp: nodes_def filter_empty_conv)
      with False show ?thesis by (cases ec) auto
    qed
    show ?thesis
    proof (cases "node_after_edge ec")
      case True
      with c show ?thesis by (simp add: is_fatal_def)
    next
      case nae: False
      show ?thesis
      proof (cases "nodes ec = 0")
        case True
        with c nae edges show ?thesis by (simp add: is_fatal_def)
      next
        case nz: False
        show ?thesis
        proof (cases "edge_id_too_large ec")
          case True
          with c nae nz show ?thesis by (simp add: is_fatal_def)
        next
          case False
          with c nae nz obtain D' where "setup_task all D ec = Inr D'" by auto
          with nae nz False show ?thesis by simp
        qed
      qed
    qed
  qed
  have st: "bfs (fst (setup_state all D ec)) = bfs D \<and> pred (fst (setup_state all D ec)) = pred D
            \<and> (node_after_edge ec \<or> nodes ec = 0 \<longrightarrow> adj (fst (setup_state all D ec)) = adj D)
            \<and> (\<not> node_after_edge ec \<and> nodes ec \<noteq> 0 \<longrightarrow>
                 (\<exists>j. nodes ec \<le> j \<and> j < length ec
                    \<and> (\<exists>ci\<in>set (costs (ec ! j)). nodes ec < unat ci)
                    \<and> foldE (edge_step (word_of_nat (nodes ec)) ec) [nodes ec..<j]
                          (replicate (nodes ec) []) = Inr (adj (fst (setup_state all D ec)))))"
    if f: "\<exists>e. setup_task all D ec = Inl e \<and> is_fatal e"
  proof -
    from f have ok: "setup_task all D ec \<noteq> Inl OutOfBounds" by (auto simp: is_fatal_def)
    note c = setup_state_cases [OF assms(1) ok]
    show ?thesis
    proof (cases "node_after_edge ec")
      case True
      with c show ?thesis by simp
    next
      case nae: False
      show ?thesis
      proof (cases "nodes ec = 0")
        case True
        with c nae show ?thesis by simp
      next
        case nz: False
        show ?thesis
        proof (cases "edge_id_too_large ec")
          case True
          with c nae nz show ?thesis by simp
        next
          case False
          with c nae nz have "snd (setup_state all D ec) = None" by simp
          then have "\<exists>D'. setup_task all D ec = Inr D'"
            unfolding setup_state_outcome by (simp add: outcome_def)
          with f show ?thesis by auto
        qed
      qed
    qed
  qed
  from iff n1 st setup_state_outcome [of all D ec] show ?thesis by blast
qed

theorem setup_fatal_iff_witness:
  "length second_edge_to_missing_node < 2 ^ 32
   \<and> labels_in_range (fst (initialize default_options 2)) second_edge_to_missing_node
   \<and> ids_nonzero second_edge_to_missing_node
   \<and> nodes second_edge_to_missing_node = 2
   \<and> \<not> node_after_edge second_edge_to_missing_node
   \<and> edge_id_too_large second_edge_to_missing_node
   \<and> setup_task (plain_vw [] True) (fst (initialize default_options 2)) second_edge_to_missing_node
       = Inl NodeIdTooLarge
   \<and> bfs (fst (setup_state (plain_vw [] True) (fst (initialize default_options 2))
                 second_edge_to_missing_node)) = []
   \<and> pred (fst (setup_state (plain_vw [] True) (fst (initialize default_options 2))
                 second_edge_to_missing_node)) = []"
proof -
  have n: "nodes second_edge_to_missing_node = 2"
    by (simp add: nodes_def second_edge_to_missing_node_def episode_defs example_is_edge_def)
  have l: "length second_edge_to_missing_node < 2 ^ 32
      \<and> labels_in_range (fst (initialize default_options 2)) second_edge_to_missing_node
      \<and> ids_nonzero second_edge_to_missing_node"
    by (simp add: second_edge_to_missing_node_def episode_defs labels_in_range_def ids_nonzero_def
          example_is_edge_def initialize_def new_task_data_def Let_def)
  have t: "edge_id_too_large second_edge_to_missing_node"
    by (simp add: edge_id_too_large_def n)
       (simp add: second_edge_to_missing_node_def episode_defs example_is_edge_def)
  have a: "\<not> node_after_edge second_edge_to_missing_node"
    unfolding second_edge_to_missing_node_def
    by (simp add: node_after_edge_Cons node_after_edge_Nil episode_defs example_is_edge_def)
  have s: "setup_task (plain_vw [] True) (fst (initialize default_options 2)) second_edge_to_missing_node
       = Inl NodeIdTooLarge"
    by (simp add: setup_defs episode_defs eval_simps second_edge_to_missing_node_def)
  have b: "bfs (fst (initialize default_options 2)) = [] \<and> pred (fst (initialize default_options 2)) = []"
    by (simp add: initialize_def new_task_data_def default_options_def Let_def)
  from setup_fatal_iff [of second_edge_to_missing_node "plain_vw [] True" "fst (initialize default_options 2)"]
    n l t a s b show ?thesis by (simp add: is_fatal_def)
qed

text \<open>
  Claim C8 as stated does not hold of the adjacency: on two nodes with the edge records
  \<open>1 2\<close> and \<open>1 3\<close>, \<open>setup\<close> raises for the id 3 after it has built the adjacency
  lists of both nodes with the first edge.
\<close>

theorem setup_raises_with_adjacency_built:
  "setup_task (plain_vw [] True) (fst (initialize default_options 2)) second_edge_to_missing_node
     = Inl NodeIdTooLarge
   \<and> snd (setup_state (plain_vw [] True) (fst (initialize default_options 2))
            second_edge_to_missing_node) = Some NodeIdTooLarge
   \<and> adj (fst (initialize default_options 2)) = []
   \<and> adj (fst (setup_state (plain_vw [] True) (fst (initialize default_options 2))
                 second_edge_to_missing_node)) = [[2], [2]]"
  by (simp add: setup_defs setup_state_def episode_defs eval_simps second_edge_to_missing_node_def)

section \<open>Completeness of the traversal\<close>




section \<open>Values of the rounding function\<close>

lemma fl32_tenth_squared: "fmul (13421773 / 134217728) (13421773 / 134217728) = 10737419 / 1073741824"
  by (simp add: fmul_def fl32_def round_even_def Let_def eval_nat_numeral)

lemma fl32_tenth_plus_one: "fl32 (1084479243 / 1073741824) = 4236247 / 4194304"
  by (simp add: fl32_def round_even_def Let_def eval_nat_numeral)

lemma fl32_tenth_minus_one: "fl32 (41943 / 4194304) = 41943 / 4194304"
  by (simp add: fl32_def round_even_def Let_def eval_nat_numeral)

section \<open>Conditioning\<close>

text \<open>
  Claim C2 (the code departs from it). The conditioning loop of \<open>run\<close> reads the costs
  of \<open>ec[i]\<close> for \<open>i = 0 .. D.adj[n].size()-1\<close>, the first records of the episode, and
  not those of the edges \<open>ec[D.adj[n][i]]\<close> incident to \<open>n\<close>. In the episode of four
  nodes labelled 4, 1, 2, 3 and the edge between the second and the third node, the
  node with index 1 has the one incident edge \<open>ec[4]\<close>, whose other endpoint would give
  a reference to the tag 3; the request for this node carries a reference to the tag 4
  instead, read from the label of the node record \<open>ec[0]\<close>.
\<close>

theorem conditioning_reads_wrong_records:
  "\<exists>D D' ec' reqs l.
     setup_task (plain_vw [] True) (fst (initialize default_options 4)) labelled_first_node = Inr D
     \<and> adj D ! 1 = [4] \<and> costs (labelled_first_node ! 4) = [2, 3]
     \<and> condition_on 1 (costs (labelled_first_node ! 4)) = [(3, CHR ''e'')]
     \<and> costs (labelled_first_node ! 0) = [4]
     \<and> add_conditions D labelled_first_node 1 = Inr [(4, CHR ''e'')]
     \<and> run (plain_vw [] True) (constant_search 1) D labelled_first_node = Inr (D', ec', reqs, l)
     \<and> map tag reqs = [1, 2, 3, 4, 4, 3, 2, 1]
     \<and> map conditions reqs = [[], [(4, CHR ''e'')], [(4, CHR ''e'')], [], [], [(4, CHR ''e'')], [(4, CHR ''e'')], []]"
  apply (simp add: setup_defs episode_defs eval_simps)
  apply (simp add: run_defs episode_defs eval_simps)
  done


section \<open>The confusion matrix\<close>

text \<open>
  Claim C3 (the code departs from it). After the passes \<open>run\<close> reads
  \<open>ec[n]->l.cs.costs[0]\<close> for every node, labelled or not. In the episode of two
  unlabelled nodes and their edge both passes complete, with four predictions, and the
  loop over the nodes then reads the first cost of node 0, which has none: an access
  outside the array instead of a node that is skipped.
\<close>

theorem unlabelled_node_in_confusion_loop:
  "\<exists>D D2 ec2 reqs.
     setup_task (plain_vw [] True) (fst (initialize default_options 2)) unlabelled_pair = Inr D
     \<and> run_passes (plain_vw [] True) (constant_search 1) D unlabelled_pair = Inr (D2, ec2, reqs)
     \<and> map tag reqs = [1, 2, 2, 1] \<and> pred D2 = [1, 1] \<and> costs (ec2 ! 0) = []
     \<and> count_confusion ec2 0 D2 = Inl OutOfBounds
     \<and> run (plain_vw [] True) (constant_search 1) D unlabelled_pair = Inl OutOfBounds"
  apply (simp add: setup_defs episode_defs eval_simps)
  apply (simp add: run_defs episode_defs eval_simps)
  done

section \<open>Augmentation is not undone exactly\<close>

text \<open>
  Claim C1 (the code departs from it). First episode, with the pair of the namespace 97
  and the neighbor namespace configured and \<open>char\<close> unsigned: \<open>add_edge_features\<close> on
  node 0 raises \<open>num_features\<close> and \<open>total_sum_feat_sq\<close> from 1 to 3, one for the
  injected feature and one for the pair, and \<open>del_edge_features\<close> takes back the
  injected feature only, which leaves 2 in both. Second episode, with no pair: the
  feature of node 0 has the value of the \<open>float\<close> 0.1; \<open>total_sum_feat_sq\<close> is
  \<open>10737419 / 2 ^ 30\<close> before, and \<open>41943 / 2 ^ 22\<close> after the addition of 1 and the
  subtraction of 1, each rounded.
\<close>

theorem augment_then_revert_changes_counters:
  "(\<exists>D D1 ec1 ec2.
      setup_task (plain_vw [(97, 131)] False) (fst (initialize default_options 2)) two_nodes_one_edge = Inr D
      \<and> add_edge_features (plain_vw [(97, 131)] False) D 0 two_nodes_one_edge = Inr (D1, ec1)
      \<and> del_edge_features (plain_vw [(97, 131)] False) D1 0 ec1 = Inr ec2
      \<and> num_features (two_nodes_one_edge ! 0) = 1 \<and> num_features (ec1 ! 0) = 3
      \<and> num_features (ec2 ! 0) = 2
      \<and> total_sum_feat_sq (two_nodes_one_edge ! 0) = 1 \<and> total_sum_feat_sq (ec1 ! 0) = 3
      \<and> total_sum_feat_sq (ec2 ! 0) = 2)
   \<and> (\<exists>D D1 ec1 ec2.
      setup_task (plain_vw [] True) (fst (initialize default_options 2)) tenth_valued_node = Inr D
      \<and> add_edge_features (plain_vw [] True) D 0 tenth_valued_node = Inr (D1, ec1)
      \<and> del_edge_features (plain_vw [] True) D1 0 ec1 = Inr ec2
      \<and> num_features (tenth_valued_node ! 0) = 1 \<and> num_features (ec2 ! 0) = 1
      \<and> total_sum_feat_sq (tenth_valued_node ! 0) = 10737419 / 1073741824
      \<and> total_sum_feat_sq (ec1 ! 0) = 4236247 / 4194304
      \<and> total_sum_feat_sq (ec2 ! 0) = 41943 / 4194304)"
  apply (simp add: setup_defs episode_defs eval_simps)
  apply (simp add: run_defs episode_defs eval_simps fl32_tenth_plus_one fl32_tenth_minus_one)
  done

section \<open>The order of the passes\<close>

lemma sint_small:
  fixes w :: u32
  assumes "unat w < 2 ^ 31"
  shows "sint w = int (unat w)"
proof -
  have "int (unat w) < 2 ^ 31"
    using assms by (metis of_nat_less_iff of_nat_numeral of_nat_power)
  then have a: "uint w < 2 ^ 31" by (simp only: uint_nat)
  have "- (2 ^ 31) \<le> (0::int)" by simp
  then have b: "- (2 ^ 31) \<le> uint w" by (rule order_trans) (rule uint_ge_0)
  have l: "LENGTH(32) - Suc 0 = 31" by simp
  have "sint w = signed_take_bit (LENGTH(32) - Suc 0) (uint w)" by (rule sint_uint)
  also have "\<dots> = uint w" unfolding l by (rule signed_take_bit_int_eq_self [OF b a])
  finally show ?thesis by (simp only: uint_nat)
qed

lemma sint_pred_small:
  fixes w :: u32
  assumes "unat w < 2 ^ 31"
  shows "sint (w - 1) = int (unat w) - 1"
proof (cases "w = 0")
  case True
  then show ?thesis by (simp add: sint_n1)
next
  case False
  then have u: "unat (w - 1) = unat w - 1" by (rule unat_minus_one)
  from False have "0 < unat w" by (simp add: unat_gt_0)
  with u assms sint_small [of "w - 1"] show ?thesis by simp
qed

lemma predict_node_tag:
  assumes "predict_node all sch loop n t = Inr t'"
  shows "frame (fst t) (fst t') \<and> (\<exists>P. snd (snd t') = snd (snd t) @ [P] \<and> tag P = n + 1)"
proof -
  obtain Da eca ra where t: "t = (Da, eca, ra)" by (cases t) auto
  obtain Db ecb rb where t': "t' = (Db, ecb, rb)" by (cases t') auto
  from predict_node_effect [OF assms [unfolded t t']] show ?thesis
    by (auto simp: t t')
qed

lemma pass_loop_forward:
  assumes "\<And>n t t'. body n t = Inr t' \<Longrightarrow> Q t t' \<and> (\<exists>P. snd (snd t') = snd (snd t) @ [P] \<and> tag P = n + 1)"
    and "\<And>t. Q t t" and "\<And>t t' t''. Q t t' \<Longrightarrow> Q t' t'' \<Longrightarrow> Q t t''"
    and "pass_loop body order True i (int (length order)) s = Inr s'"
    and "0 \<le> i" and "i \<le> int (length order)"
  shows "Q s s' \<and> map tag (snd (snd s')) = map tag (snd (snd s)) @ map (\<lambda>n. n + 1) (drop (nat i) order)"
  using assms(4,5,6)
proof (induction "length order - nat i" arbitrary: i s)
  case 0
  then have "i = int (length order)" by simp
  with "0.prems"(1) assms(2) show ?case by (simp add: pass_loop.simps)
next
  case (Suc d)
  then have lt: "i < int (length order)" by simp
  with Suc.prems(1,2) obtain t where t: "body (order ! nat i) s = Inr t"
    and rest: "pass_loop body order True (i + 1) (int (length order)) t = Inr s'"
    by (subst (asm) pass_loop.simps) (auto split: sum.splits if_splits)
  from assms(1) [OF t] obtain P where P: "Q s t" "snd (snd t) = snd (snd s) @ [P]" "tag P = order ! nat i + 1"
    by auto
  from Suc.hyps(2) Suc.prems(2) lt have d: "d = length order - nat (i + 1)" by simp
  from Suc.hyps(1) [OF d rest] Suc.prems(2) lt
  have IH: "Q t s'" "map tag (snd (snd s')) = map tag (snd (snd t)) @ map (\<lambda>n. n + 1) (drop (nat (i + 1)) order)"
    by simp_all
  from lt Suc.prems(2) have "drop (nat i) order = order ! nat i # drop (nat (i + 1)) order"
    by (simp add: Cons_nth_drop_Suc nat_add_distrib)
  with IH P assms(3) show ?case by auto
qed

lemma pass_loop_backward:
  assumes "\<And>n t t'. body n t = Inr t' \<Longrightarrow> Q t t' \<and> (\<exists>P. snd (snd t') = snd (snd t) @ [P] \<and> tag P = n + 1)"
    and "\<And>t. Q t t" and "\<And>t t' t''. Q t t' \<Longrightarrow> Q t' t'' \<Longrightarrow> Q t t''"
    and "pass_loop body order False i (- 1) s = Inr s'"
    and "- 1 \<le> i" and "i < int (length order)"
  shows "Q s s' \<and> map tag (snd (snd s')) = map tag (snd (snd s)) @ map (\<lambda>n. n + 1) (rev (take (nat (i + 1)) order))"
  using assms(4,5,6)
proof (induction "nat (i + 1)" arbitrary: i s)
  case 0
  then have "i = - 1" by simp
  with "0.prems"(1) assms(2) show ?case by (simp add: pass_loop.simps)
next
  case (Suc d)
  then have ge: "0 \<le> i" by simp
  with Suc.prems(1,3) obtain t where t: "body (order ! nat i) s = Inr t"
    and rest: "pass_loop body order False (i - 1) (- 1) t = Inr s'"
    by (subst (asm) pass_loop.simps) (auto split: sum.splits if_splits)
  from assms(1) [OF t] obtain P where P: "Q s t" "snd (snd t) = snd (snd s) @ [P]" "tag P = order ! nat i + 1"
    by auto
  from Suc.hyps(2) ge have d: "d = nat (i - 1 + 1)" by simp
  from Suc.hyps(1) [OF d rest] Suc.prems(3) ge
  have IH: "Q t s'" "map tag (snd (snd s')) = map tag (snd (snd t)) @ map (\<lambda>n. n + 1) (rev (take (nat (i - 1 + 1)) order))"
    by simp_all
  from ge Suc.prems(3) have "take (nat (i + 1)) order = take (nat i) order @ [order ! nat i]"
    by (simp add: take_Suc_conv_app_nth nat_add_distrib)
  with IH P assms(3) show ?case by auto
qed

definition pass_order :: "u32 list \<Rightarrow> nat \<Rightarrow> u32 list" where
  "pass_order b loop = (if loop mod 2 = 1 then rev b else b)"

lemma run_pass_tags:
  assumes "run_pass all sch loop st = Inr st'" and "length (bfs (fst st)) = unat (N (fst st))"
    and "unat (N (fst st)) < 2 ^ 31"
  shows "frame (fst st) (fst st')
       \<and> map tag (snd (snd st')) = map tag (snd (snd st)) @ map (\<lambda>n. n + 1) (pass_order (bfs (fst st)) loop)"
proof -
  let ?Q = "\<lambda>t t'. frame (fst t) (fst t')"
  have body: "?Q t t' \<and> (\<exists>P. snd (snd t') = snd (snd t) @ [P] \<and> tag P = n + 1)"
    if "predict_node all sch loop n t = Inr t'" for n t t'
    using predict_node_tag [OF that] .
  have r: "?Q t t" for t :: "task_data \<times> example list \<times> request list" by (simp add: frame_refl)
  have tr: "?Q t t' \<Longrightarrow> ?Q t' t'' \<Longrightarrow> ?Q t t''" for t t' t'' :: "task_data \<times> example list \<times> request list"
    by (rule frame_trans)
  show ?thesis
  proof (cases "loop mod 2 = 1")
    case True
    with assms(1) have p: "pass_loop (predict_node all sch loop) (bfs (fst st)) False
        (sint (N (fst st) - 1)) (- 1) st = Inr st'"
      by (simp add: run_pass_def)
    have s: "sint (N (fst st) - 1) = int (length (bfs (fst st))) - 1"
      using sint_pred_small [OF assms(3)] assms(2) by simp
    from pass_loop_backward [of "predict_node all sch loop" ?Q, OF body r tr p [unfolded s]]
    show ?thesis using True by (simp add: pass_order_def)
  next
    case False
    with assms(1) have p: "pass_loop (predict_node all sch loop) (bfs (fst st)) True
        0 (sint (N (fst st))) st = Inr st'"
      by (simp add: run_pass_def)
    have s: "sint (N (fst st)) = int (length (bfs (fst st)))"
      using sint_small [OF assms(3)] assms(2) by simp
    from pass_loop_forward [of "predict_node all sch loop" ?Q, OF body r tr p [unfolded s]]
    show ?thesis using False by (simp add: pass_order_def)
  qed
qed

lemma run_passes_tags:
  assumes "foldE (run_pass all sch) loops st = Inr st'" and "length (bfs (fst st)) = unat (N (fst st))"
    and "unat (N (fst st)) < 2 ^ 31"
  shows "frame (fst st) (fst st')
       \<and> map tag (snd (snd st')) = map tag (snd (snd st))
            @ concat (map (\<lambda>loop. map (\<lambda>n. n + 1) (pass_order (bfs (fst st)) loop)) loops)"
  using assms
proof (induction loops arbitrary: st)
  case Nil
  then show ?case by (simp add: frame_refl)
next
  case (Cons loop loops)
  from Cons.prems(1) obtain t where t: "run_pass all sch loop st = Inr t"
    and rest: "foldE (run_pass all sch) loops t = Inr st'"
    by (auto split: sum.splits)
  note a = run_pass_tags [OF t Cons.prems(2,3)]
  then have f: "bfs (fst t) = bfs (fst st)" "N (fst t) = N (fst st)" by (simp_all add: frame_def)
  from Cons.IH [OF rest] Cons.prems(2,3) f
  have "frame (fst t) (fst st')
       \<and> map tag (snd (snd st')) = map tag (snd (snd t))
            @ concat (map (\<lambda>loop. map (\<lambda>n. n + 1) (pass_order (bfs (fst st)) loop)) loops)"
    by simp
  with a show ?case by (auto intro: frame_trans)
qed

lemma setup_Inr_facts:
  assumes "length ec < 2 ^ 32" and "setup_task all D0 ec = Inr D"
  shows "unat (N D) = nodes ec \<and> length (bfs D) = nodes ec \<and> distinct (bfs D)
       \<and> unat ` set (bfs D) = {0..<nodes ec} \<and> bfs D ! 0 = 0
       \<and> pred D = replicate (nodes ec) (K D0 + 1) \<and> graph_ok (nodes ec) (adj D) ec
       \<and> \<not> node_after_edge ec \<and> nodes ec \<noteq> 0 \<and> \<not> edge_id_too_large ec"
proof -
  from assms(2) have "setup_task all D0 ec \<noteq> Inl OutOfBounds" by simp
  from setup_cases [OF assms(1) this] assms(2) show ?thesis
    by (auto split: if_splits)
qed

lemma run_passes_pred_length:
  assumes "foldE (run_pass all sch) loops st = Inr st'"
  shows "length (pred (fst st')) = length (pred (fst st))"
proof (rule foldE_invariant [OF assms, where P = "\<lambda>t. length (pred (fst t)) = length (pred (fst st))"])
  show "length (pred (fst st)) = length (pred (fst st))" by simp
next
  fix loop t t'
  assume P: "length (pred (fst t)) = length (pred (fst st))" and r: "run_pass all sch loop t = Inr t'"
  show "length (pred (fst t')) = length (pred (fst st))"
  proof (rule run_pass_invariant [OF r, where P = "\<lambda>t. length (pred (fst t)) = length (pred (fst st))"])
    show "length (pred (fst t)) = length (pred (fst st))" by (rule P)
  next
    fix n u u'
    assume Q: "length (pred (fst u)) = length (pred (fst st))"
      and p: "predict_node all sch loop n u = Inr u'"
    obtain Da eca ra where u: "u = (Da, eca, ra)" by (cases u) auto
    obtain Db ecb rb where u': "u' = (Db, ecb, rb)" by (cases u') auto
    from predict_node_effect [OF p [unfolded u u']] Q show "length (pred (fst u')) = length (pred (fst st))"
      by (simp add: u u')
  qed
qed

text \<open>
  Claim C7. \<open>Ds\<close> is the task data that \<open>setup\<close> returns for an episode of fewer than
  \<open>2 ^ 31\<close> examples, and \<open>D\<close> the task data at the start of a run: that of \<open>setup\<close> or
  what earlier runs have made of it, with any predictions, confusion matrix, neighbor
  predictions and current node. For every run on \<open>D\<close> whose passes complete: the head
  of \<open>run\<close> sets every entry of \<open>D.pred[0 .. N-1]\<close> to \<open>D.K + 1\<close> and clears the confusion
  matrix before the first pass; the requests are predicted in \<open>num_loops\<close> consecutive
  passes, and the nodes of pass \<open>loop\<close>, in the order of their requests (the tag of
  node \<open>n\<close> is \<open>n + 1\<close>), are \<open>D.bfs\<close> when \<open>loop\<close> is even and the reverse of \<open>D.bfs\<close>
  when it is odd. \<open>D.bfs\<close> has every node \<open>0 .. N-1\<close> exactly once, so no pass skips a
  node or predicts one twice. The task data after the run is again one a run can start
  from.
\<close>

theorem passes_alternate_over_the_order:
  assumes "length ec < 2 ^ 31" and "setup_task all D0 ec = Inr Ds"
    and "frame Ds D" and "length (pred D) = unat (N Ds)"
    and "run_passes all sch D ec1 = Inr (D2, ec2, reqs)"
  shows "map tag reqs =
           concat (map (\<lambda>loop. map (\<lambda>n. n + 1) (if even loop then bfs Ds else rev (bfs Ds)))
                     [0..<num_loops Ds])
       \<and> length (bfs Ds) = unat (N Ds) \<and> distinct (bfs Ds) \<and> unat ` set (bfs Ds) = {0..<unat (N Ds)}
       \<and> (\<exists>D1. run_reset D = Inr D1 \<and> pred D1 = replicate (unat (N Ds)) (K Ds + 1)
             \<and> confusion_matrix D1 = replicate ((K Ds + 1) * (K Ds + 1)) 0
                  @ drop ((K Ds + 1) * (K Ds + 1)) (confusion_matrix D)
             \<and> foldE (run_pass all sch) [0..<num_loops Ds] (D1, ec1, []) = Inr (D2, ec2, reqs))
       \<and> frame Ds D2 \<and> length (pred D2) = unat (N Ds)"
proof -
  from assms(1) have l32: "length ec < 2 ^ 32" by simp
  note s = setup_Inr_facts [OF l32 assms(2)]
  from assms(3) have fD: "bfs D = bfs Ds" "N D = N Ds" "num_loops D = num_loops Ds" "K D = K Ds"
    by (simp_all add: frame_def)
  have "nodes ec \<le> length ec" by (rule nodes_le)
  with s assms(1) have small: "unat (N Ds) < 2 ^ 31" by simp
  from assms(5) obtain D1 where r: "run_reset D = Inr D1"
    and f: "foldE (run_pass all sch) [0..<num_loops D1] (D1, ec1, []) = Inr (D2, ec2, reqs)"
    unfolding run_passes_Inr by blast
  from run_reset_frame [OF r] have fr1: "frame D D1" and lp: "length (pred D1) = length (pred D)"
    by simp_all
  from fr1 fD have fr: "bfs D1 = bfs Ds" "N D1 = N Ds" "num_loops D1 = num_loops Ds"
    by (simp_all add: frame_def)
  from r assms(4) fD have p: "pred D1 = replicate (unat (N Ds)) (K Ds + 1)"
    by (auto simp: run_reset_def Let_def split: if_splits)
  from r fD have c: "confusion_matrix D1 = replicate ((K Ds + 1) * (K Ds + 1)) 0
                  @ drop ((K Ds + 1) * (K Ds + 1)) (confusion_matrix D)"
    by (auto simp: run_reset_def Let_def split: if_splits)
  from run_passes_tags [OF f] fr s small
  have t: "frame D1 D2"
    "map tag reqs = concat (map (\<lambda>loop. map (\<lambda>n. n + 1) (pass_order (bfs Ds) loop)) [0..<num_loops Ds])"
    by simp_all
  have "pass_order (bfs Ds) loop = (if even loop then bfs Ds else rev (bfs Ds))" for loop
    by (simp add: pass_order_def even_iff_mod_2_eq_zero)
  with t(2) have tags: "map tag reqs =
           concat (map (\<lambda>loop. map (\<lambda>n. n + 1) (if even loop then bfs Ds else rev (bfs Ds)))
                     [0..<num_loops Ds])" by simp
  from assms(3) fr1 t(1) have f2: "frame Ds D2" by (blast intro: frame_trans)
  from run_passes_pred_length [OF f] lp assms(4) have l2: "length (pred D2) = unat (N Ds)" by simp
  from f fr have f': "foldE (run_pass all sch) [0..<num_loops Ds] (D1, ec1, []) = Inr (D2, ec2, reqs)"
    by simp
  from tags s r p c f' f2 l2 show ?thesis by auto
qed

theorem passes_alternate_over_the_order_witness:
  "length labelled_first_node < 2 ^ 31
   \<and> setup_task (plain_vw [] True) (fst (initialize default_options 4)) labelled_first_node
       = Inr (task_data_of (setup_task (plain_vw [] True) (fst (initialize default_options 4))
                labelled_first_node))
   \<and> frame (task_data_of (setup_task (plain_vw [] True) (fst (initialize default_options 4))
                labelled_first_node)) previous_predictions
   \<and> pred previous_predictions = [1, 1, 1, 1]
   \<and> (\<exists>D1 D2 ec2 reqs.
         run_reset previous_predictions = Inr D1 \<and> pred D1 = [5, 5, 5, 5]
         \<and> run_passes (plain_vw [] True) (constant_search 2) previous_predictions labelled_first_node
              = Inr (D2, ec2, reqs)
         \<and> map tag reqs = [1, 2, 3, 4, 4, 3, 2, 1] \<and> pred D2 = [2, 2, 2, 2])"
  using passes_alternate_over_the_order [of labelled_first_node "plain_vw [] True"
      "fst (initialize default_options 4)"
      "task_data_of (setup_task (plain_vw [] True) (fst (initialize default_options 4)) labelled_first_node)"
      previous_predictions "constant_search 2" labelled_first_node]
  apply (simp add: setup_defs episode_defs eval_simps task_data_of_def previous_predictions_def frame_def)
  apply (simp add: run_defs episode_defs eval_simps)
  done

section \<open>The macro-averaged F1 score\<close>

text \<open>
  The score as the specification words it, next to \<open>macro_f\<close> of the source: the row sum
  \<open>trueC\<close> and the column sum \<open>predC\<close> of label \<open>k\<close> over the labels \<open>1 .. K\<close> as natural
  numbers, the F1 score of a label from its precision and recall, and the mean over the
  labels with a nonzero row sum, where a label without a correct prediction adds nothing
  to the sum but counts in the number of labels. The four operations of the score, the
  sum of the scores and the final division are those of \<open>float\<close>.
\<close>

definition trueC :: "task_data \<Rightarrow> nat \<Rightarrow> nat" where
  "trueC D k = sum_list (map (\<lambda>j. unat (confusion_matrix D ! IDX D k j)) [1..<K D + 1])"

definition predC :: "task_data \<Rightarrow> nat \<Rightarrow> nat" where
  "predC D k = sum_list (map (\<lambda>j. unat (confusion_matrix D ! IDX D j k)) [1..<K D + 1])"

definition correctC :: "task_data \<Rightarrow> nat \<Rightarrow> nat" where
  "correctC D k = unat (confusion_matrix D ! IDX D k k)"

definition f1_score :: "task_data \<Rightarrow> nat \<Rightarrow> float" where
  "f1_score D k =
     (let precision = fdiv (real (correctC D k)) (real (predC D k));
          recall = fdiv (real (correctC D k)) (real (trueC D k))
      in fdiv (fmul (fmul 2 precision) recall) (fadd precision recall))"

definition macro_f1 :: "task_data \<Rightarrow> float option" where
  "macro_f1 D =
     (let counted = filter (\<lambda>k. trueC D k \<noteq> 0) [1..<K D + 1];
          scored = filter (\<lambda>k. 0 < correctC D k) counted
      in if counted = [] then None
         else Some (fdiv (foldl fadd 0 (map (f1_score D) scored)) (real (length counted))))"

text \<open>
  The same score in exact arithmetic: the sums, the quotients and the mean are those of
  the real numbers.
\<close>

definition f1_exact :: "task_data \<Rightarrow> nat \<Rightarrow> real" where
  "f1_exact D k =
     (let precision = real (correctC D k) / real (predC D k);
          recall = real (correctC D k) / real (trueC D k)
      in 2 * precision * recall / (precision + recall))"

definition macro_f1_exact :: "task_data \<Rightarrow> real option" where
  "macro_f1_exact D =
     (let counted = filter (\<lambda>k. trueC D k \<noteq> 0) [1..<K D + 1]
      in if counted = [] then None
         else Some (sum_list (map (\<lambda>k. if 0 < correctC D k then f1_exact D k else 0) counted)
                      / real (length counted)))"

lemma IDX_in_range:
  assumes "(K D + 1) * (K D + 1) \<le> length (confusion_matrix D)" and "k \<le> K D" and "j \<le> K D"
  shows "IDX D k j < length (confusion_matrix D)"
proof -
  have "k * (K D + 1) + j < k * (K D + 1) + (K D + 1)" using assms(3) by simp
  also have "\<dots> = (k + 1) * (K D + 1)" by simp
  also have "\<dots> \<le> (K D + 1) * (K D + 1)" using assms(2) by (intro mult_right_mono) simp_all
  finally show ?thesis using assms(1) by (simp add: IDX_def)
qed

lemma macro_f_sums_fold:
  assumes "\<forall>j\<in>set js. IDX D k j < length (confusion_matrix D) \<and> IDX D j k < length (confusion_matrix D)"
    and "a + sum_list (map (\<lambda>j. unat (confusion_matrix D ! IDX D k j)) js) < 2 ^ 24"
    and "b + sum_list (map (\<lambda>j. unat (confusion_matrix D ! IDX D j k)) js) < 2 ^ 24"
  shows "foldE (macro_f_sums D k) js (real a, real b) =
           Inr (real (a + sum_list (map (\<lambda>j. unat (confusion_matrix D ! IDX D k j)) js)),
                real (b + sum_list (map (\<lambda>j. unat (confusion_matrix D ! IDX D j k)) js)))"
  using assms
proof (induction js arbitrary: a b)
  case Nil
  show ?case by simp
next
  case (Cons j js)
  let ?x = "unat (confusion_matrix D ! IDX D k j)"
  let ?y = "unat (confusion_matrix D ! IDX D j k)"
  from Cons.prems have x: "?x < 2 ^ 24" "a + ?x < 2 ^ 24" and y: "?y < 2 ^ 24" "b + ?y < 2 ^ 24"
    by simp_all
  have fx: "fadd (real a) (float_of_nat ?x) = real (a + ?x)"
    using fl32_nat_exact [OF x(2)] by (simp add: float_of_nat_exact [OF x(1)] fadd_def)
  have fy: "fadd (real b) (float_of_nat ?y) = real (b + ?y)"
    using fl32_nat_exact [OF y(2)] by (simp add: float_of_nat_exact [OF y(1)] fadd_def)
  from Cons.prems(1) have step: "macro_f_sums D k j (real a, real b) = Inr (real (a + ?x), real (b + ?y))"
    by (simp add: macro_f_sums_def fx fy del: of_nat_add)
  have "foldE (macro_f_sums D k) js (real (a + ?x), real (b + ?y)) =
           Inr (real (a + ?x + sum_list (map (\<lambda>j. unat (confusion_matrix D ! IDX D k j)) js)),
                real (b + ?y + sum_list (map (\<lambda>j. unat (confusion_matrix D ! IDX D j k)) js)))"
    using Cons.prems by (intro Cons.IH) (simp_all add: add.assoc)
  with step show ?case by (simp add: add.assoc del: of_nat_add)
qed

lemma macro_f_sums_label:
  assumes "(K D + 1) * (K D + 1) \<le> length (confusion_matrix D)" and "k \<le> K D"
    and "trueC D k < 2 ^ 24" and "predC D k < 2 ^ 24"
  shows "foldE (macro_f_sums D k) [1..<K D + 1] (0, 0) = Inr (real (trueC D k), real (predC D k))"
proof -
  have r: "\<forall>j\<in>set [1..<K D + 1]. IDX D k j < length (confusion_matrix D) \<and> IDX D j k < length (confusion_matrix D)"
    using assms(1,2) by (auto intro!: IDX_in_range)
  from macro_f_sums_fold [of "[1..<K D + 1]" D k 0 0, OF r] assms(3,4)
  show ?thesis by (simp add: trueC_def predC_def)
qed

lemma correctC_le_trueC:
  assumes "1 \<le> k" and "k \<le> K D"
  shows "correctC D k \<le> trueC D k"
proof -
  have "k \<in> set [1..<K D + 1]" using assms by auto
  then have "unat (confusion_matrix D ! IDX D k k) \<in> set (map (\<lambda>j. unat (confusion_matrix D ! IDX D k j)) [1..<K D + 1])"
    unfolding set_map by (rule imageI)
  then show ?thesis unfolding correctC_def trueC_def by (intro member_le_sum_list) simp_all
qed

lemma macro_f_label_eq:
  assumes "(K D + 1) * (K D + 1) \<le> length (confusion_matrix D)" and "1 \<le> k" and "k \<le> K D"
    and "trueC D k < 2 ^ 24" and "predC D k < 2 ^ 24"
  shows "macro_f_label D k tc =
           Inr (if trueC D k = 0 then tc
                else (if 0 < correctC D k then fadd (fst tc) (f1_score D k) else fst tc, fadd (snd tc) 1))"
proof -
  have i: "\<not> length (confusion_matrix D) \<le> IDX D k k"
    using IDX_in_range [OF assms(1) assms(3) assms(3)] by simp
  have s: "foldE (macro_f_sums D k) [1..<K D + 1] (0, 0) = Inr (real (trueC D k), real (predC D k))"
    using assms by (intro macro_f_sums_label) simp_all
  from correctC_le_trueC [OF assms(2,3)] assms(4) have "correctC D k < 2 ^ 24" by simp
  then have c: "float_of_nat (unat (confusion_matrix D ! IDX D k k)) = real (correctC D k)"
    unfolding correctC_def by (rule float_of_nat_exact)
  show ?thesis
    unfolding macro_f_label_def s sum.case fst_conv snd_conv c Let_def f1_score_def
    using i by simp
qed

lemma macro_f_label_fold:
  assumes "(K D + 1) * (K D + 1) \<le> length (confusion_matrix D)"
    and "\<forall>k\<in>set ks. 1 \<le> k \<and> k \<le> K D \<and> trueC D k < 2 ^ 24 \<and> predC D k < 2 ^ 24"
    and "c + length ks < 2 ^ 24"
  shows "foldE (macro_f_label D) ks (t, real c) =
           Inr (foldl fadd t (map (f1_score D)
                  (filter (\<lambda>k. 0 < correctC D k) (filter (\<lambda>k. trueC D k \<noteq> 0) ks))),
                real (c + length (filter (\<lambda>k. trueC D k \<noteq> 0) ks)))"
  using assms(2,3)
proof (induction ks arbitrary: t c)
  case Nil
  show ?case by simp
next
  case (Cons k ks)
  from Cons.prems have k: "1 \<le> k" "k \<le> K D" "trueC D k < 2 ^ 24" "predC D k < 2 ^ 24"
    by simp_all
  note step = macro_f_label_eq [OF assms(1) k]
  from Cons.prems have c1: "c + 1 < 2 ^ 24" by simp
  have inc: "fadd (real c) 1 = real (c + 1)"
    using fl32_nat_exact [OF c1] by (simp add: fadd_def add.commute)
  show ?case
  proof (cases "trueC D k = 0")
    case True
    have "foldE (macro_f_label D) ks (t, real c) =
           Inr (foldl fadd t (map (f1_score D)
                  (filter (\<lambda>k. 0 < correctC D k) (filter (\<lambda>k. trueC D k \<noteq> 0) ks))),
                real (c + length (filter (\<lambda>k. trueC D k \<noteq> 0) ks)))"
      using Cons.prems by (intro Cons.IH) simp_all
    with True step show ?thesis by simp
  next
    case False
    have "foldE (macro_f_label D) ks (t', real (c + 1)) =
           Inr (foldl fadd t' (map (f1_score D)
                  (filter (\<lambda>k. 0 < correctC D k) (filter (\<lambda>k. trueC D k \<noteq> 0) ks))),
                real (c + 1 + length (filter (\<lambda>k. trueC D k \<noteq> 0) ks)))" for t'
      using Cons.prems by (intro Cons.IH) simp_all
    with False show ?thesis by (simp add: step inc del: of_nat_add of_nat_Suc)
  qed
qed

lemma macro_f_refines:
  assumes "(K D + 1) * (K D + 1) \<le> length (confusion_matrix D)" and "K D < 2 ^ 24"
    and "\<forall>k\<in>{1..K D}. trueC D k < 2 ^ 24 \<and> predC D k < 2 ^ 24"
  shows "macro_f D = Inr (macro_f1 D)"
proof -
  have r: "\<forall>k\<in>set [1..<K D + 1]. 1 \<le> k \<and> k \<le> K D \<and> trueC D k < 2 ^ 24 \<and> predC D k < 2 ^ 24"
    using assms(3) by auto
  have l: "0 + length [1..<K D + 1] < 2 ^ 24" using assms(2) by simp
  from macro_f_label_fold [OF assms(1) r l, of 0]
  show ?thesis by (simp add: macro_f_def macro_f1_def Let_def del: upt_Suc)
qed

lemma fl32_three_quarters: "fl32 (3 / 4) = 3 / 4"
  using fl32_binade [of "- 1" "3 / 4"] by (simp add: round_even_def Let_def)

lemma fl32_three_halves: "fl32 (3 / 2) = 3 / 2"
  using fl32_binade [of 0 "3 / 2"] by (simp add: round_even_def Let_def)

lemma fl32_seven_quarters: "fl32 (7 / 4) = 7 / 4"
  using fl32_binade [of 0 "7 / 4"] by (simp add: round_even_def Let_def)

lemma fl32_six_sevenths: "fl32 (6 / 7) = 14380471 / 16777216"
  using fl32_binade [of "- 1" "6 / 7"] by (simp add: round_even_def Let_def)

lemma fl32_two_thirds: "fl32 (2 / 3) = 11184811 / 16777216"
  using fl32_binade [of "- 1" "2 / 3"] by (simp add: round_even_def Let_def)

lemma fl32_six_sevenths_exact: "fl32 (14380471 / 16777216) = 14380471 / 16777216"
  using fl32_binade [of "- 1" "14380471 / 16777216"] by (simp add: round_even_def Let_def)

lemma fl32_four_thirds: "fl32 (11184811 / 8388608) = 11184811 / 8388608"
  using fl32_binade [of 0 "11184811 / 8388608"] by (simp add: round_even_def Let_def)

lemma fl32_five_thirds: "fl32 (27962027 / 16777216) = 6990507 / 4194304"
  using fl32_binade [of 0 "27962027 / 16777216"] by (simp add: round_even_def Let_def)

lemma fl32_four_fifths: "fl32 (11184811 / 13981014) = 13421773 / 16777216"
  using fl32_binade [of "- 1" "11184811 / 13981014"] by (simp add: round_even_def Let_def)

lemma fl32_f1_total: "fl32 (6950561 / 4194304) = 6950561 / 4194304"
  using fl32_binade [of 0 "6950561 / 4194304"] by (simp add: round_even_def Let_def)

lemma fl32_f1_mean: "fl32 (6950561 / 8388608) = 6950561 / 8388608"
  using fl32_binade [of "- 1" "6950561 / 8388608"] by (simp add: round_even_def Let_def)

lemma fl32_f1_loss: "fl32 (1438047 / 8388608) = 1438047 / 8388608"
  using fl32_binade [of "- 3" "1438047 / 8388608"] by (simp add: round_even_def Let_def)

lemmas f1_values = fl32_three_quarters fl32_three_halves fl32_seven_quarters fl32_six_sevenths
  fl32_two_thirds fl32_six_sevenths_exact fl32_four_thirds fl32_five_thirds fl32_four_fifths
  fl32_f1_total fl32_f1_mean fl32_f1_loss

lemma macro_f1_example:
  assumes "K D = 2"
    and "confusion_matrix D ! IDX D 1 1 = 3" and "confusion_matrix D ! IDX D 1 2 = 1"
    and "confusion_matrix D ! IDX D 2 1 = 0" and "confusion_matrix D ! IDX D 2 2 = 2"
  shows "macro_f1 D = Some (6950561 / 8388608)"
proof -
  have u: "[1..<K D + 1] = [1, 2]" using assms(1) by (simp add: upt_conv_Cons)
  have t: "trueC D 1 = 4" "trueC D 2 = 2" and p: "predC D 1 = 3" "predC D 2 = 3"
    and c: "correctC D 1 = 3" "correctC D 2 = 2"
    unfolding trueC_def predC_def correctC_def u using assms(2-5) by simp_all
  have f1: "f1_score D 1 = 14380471 / 16777216"
    unfolding f1_score_def t p c
    by (simp add: Let_def fdiv_def fmul_def fadd_def fl32_1 fl32_numeral f1_values)
  have f2: "f1_score D 2 = 13421773 / 16777216"
    unfolding f1_score_def t p c
    by (simp add: Let_def fdiv_def fmul_def fadd_def fl32_1 fl32_numeral f1_values)
  note v = t c f1 f2
  show ?thesis
    unfolding macro_f1_def u Let_def
    by (simp add: v v [unfolded One_nat_def] fdiv_def fadd_def f1_values)
qed

lemma macro_f1_exact_example:
  assumes "K D = 2"
    and "confusion_matrix D ! IDX D 1 1 = 3" and "confusion_matrix D ! IDX D 1 2 = 1"
    and "confusion_matrix D ! IDX D 2 1 = 0" and "confusion_matrix D ! IDX D 2 2 = 2"
  shows "macro_f1_exact D = Some (29 / 35)"
proof -
  have u: "[1..<K D + 1] = [1, 2]" using assms(1) by (simp add: upt_conv_Cons)
  have t: "trueC D 1 = 4" "trueC D 2 = 2" and p: "predC D 1 = 3" "predC D 2 = 3"
    and c: "correctC D 1 = 3" "correctC D 2 = 2"
    unfolding trueC_def predC_def correctC_def u using assms(2-5) by simp_all
  have f1: "f1_exact D 1 = 6 / 7" unfolding f1_exact_def t p c by (simp add: Let_def)
  have f2: "f1_exact D 2 = 4 / 5" unfolding f1_exact_def t p c by (simp add: Let_def)
  note v = t c f1 f2
  show ?thesis
    unfolding macro_f1_exact_def u Let_def
    by (simp add: v v [unfolded One_nat_def])
qed

lemma macro_f_example:
  assumes "K D = 2" and "9 \<le> length (confusion_matrix D)"
    and "confusion_matrix D ! IDX D 1 1 = 3" and "confusion_matrix D ! IDX D 1 2 = 1"
    and "confusion_matrix D ! IDX D 2 1 = 0" and "confusion_matrix D ! IDX D 2 2 = 2"
  shows "macro_f D = Inr (Some (6950561 / 8388608))"
proof -
  have u: "[1..<K D + 1] = [1, 2]" using assms(1) by (simp add: upt_conv_Cons)
  have t: "trueC D 1 = 4" "trueC D 2 = 2" and p: "predC D 1 = 3" "predC D 2 = 3"
    unfolding trueC_def predC_def u using assms(3-6) by simp_all
  have "\<forall>k\<in>{1..K D}. trueC D k < 2 ^ 24 \<and> predC D k < 2 ^ 24"
  proof
    fix k assume "k \<in> {1..K D}"
    with assms(1) have "k = 1 \<or> k = 2" by auto
    with t p show "trueC D k < 2 ^ 24 \<and> predC D k < 2 ^ 24" by auto
  qed
  with assms(1,2) have "macro_f D = Inr (macro_f1 D)" by (intro macro_f_refines) simp_all
  with macro_f1_example [OF assms(1,3-6)] show ?thesis by simp
qed

text \<open>
  Six nodes without edges, four with the label 1 and two with the label 2, and a host
  search that predicts 1 for the first three nodes and 2 for the others.
\<close>

definition six_labelled_nodes :: "example list" where
  "six_labelled_nodes =
     [single_feature_example [1] 97 (1, 1) 1, single_feature_example [1] 97 (1, 2) 1,
      single_feature_example [1] 97 (1, 3) 1, single_feature_example [1] 97 (1, 4) 1,
      single_feature_example [2] 97 (1, 5) 1, single_feature_example [2] 97 (1, 6) 1]"

definition threshold_search :: search where
  "threshold_search =
     \<lparr>predictNeedsExample = (\<lambda>_. True), predict = (\<lambda>_ r. if tag r \<le> 3 then 1 else 2)\<rparr>"

text \<open>
  Claim C6. When the confusion matrix has its \<open>(K+1) * (K+1)\<close> entries, \<open>K\<close> and every row
  and column sum over the labels \<open>1 .. K\<close> are below \<open>2 ^ 24\<close> (so that the counters are
  exact in \<open>float\<close>), \<open>macro_f\<close> returns \<open>macro_f1\<close>: the mean, over the labels with a
  nonzero row sum, of the F1 score \<open>2 * precision * recall / (precision + recall)\<close> of the
  labels with a correct prediction, the other labels adding nothing to the sum. For
  \<open>K = 2\<close> and the entries \<open>confusion[1][1] = 3\<close>, \<open>confusion[1][2] = 1\<close>,
  \<open>confusion[2][1] = 0\<close>, \<open>confusion[2][2] = 2\<close> the result is the \<open>float\<close>
  \<open>6950561 / 8388608\<close>, within \<open>1 / 10 ^ 7\<close> of the score \<open>29 / 35\<close> of exact arithmetic,
  and the loss \<open>1 - macro_f(D)\<close> is within \<open>1 / 1000\<close> of 0.1714.
\<close>

theorem macro_f_averages_f1_scores:
  "((K D + 1) * (K D + 1) \<le> length (confusion_matrix D) \<and> K D < 2 ^ 24
      \<and> (\<forall>k\<in>{1..K D}. trueC D k < 2 ^ 24 \<and> predC D k < 2 ^ 24)
     \<longrightarrow> macro_f D = Inr (macro_f1 D))
   \<and> (K D = 2 \<and> 9 \<le> length (confusion_matrix D)
      \<and> confusion_matrix D ! IDX D 1 1 = 3 \<and> confusion_matrix D ! IDX D 1 2 = 1
      \<and> confusion_matrix D ! IDX D 2 1 = 0 \<and> confusion_matrix D ! IDX D 2 2 = 2
     \<longrightarrow> macro_f D = Inr (Some (6950561 / 8388608))
         \<and> macro_f1_exact D = Some (29 / 35)
         \<and> \<bar>6950561 / 8388608 - 29 / 35\<bar> < (1 / 10 ^ 7 :: real)
         \<and> fsub 1 (6950561 / 8388608) = 1438047 / 8388608
         \<and> \<bar>fsub 1 (6950561 / 8388608) - 1714 / 10000\<bar> < 1 / 1000)"
proof -
  have l: "fsub 1 (6950561 / 8388608) = 1438047 / 8388608"
    by (simp add: fsub_def fl32_f1_loss)
  have "\<bar>fsub 1 (6950561 / 8388608) - 1714 / 10000\<bar> < 1 / 1000" unfolding l by simp
  moreover have "\<bar>6950561 / 8388608 - 29 / 35\<bar> < (1 / 10 ^ 7 :: real)" by simp
  ultimately show ?thesis
    using l macro_f_refines [of D] macro_f_example [of D] macro_f1_exact_example [of D] by blast
qed

theorem macro_f_averages_f1_scores_witness:
  "\<exists>D. confusion_matrix D = [0, 0, 0, 0, 3, 1, 0, 0, 2] \<and> K D = 2
     \<and> trueC D 1 = 4 \<and> predC D 1 = 3 \<and> trueC D 2 = 2 \<and> predC D 2 = 3
     \<and> macro_f D = Inr (macro_f1 D)
     \<and> macro_f D = Inr (Some (6950561 / 8388608))
     \<and> \<bar>fsub 1 (6950561 / 8388608) - 1714 / 10000\<bar> < 1 / 1000"
  using macro_f_averages_f1_scores [of "(fst (initialize default_options 2))\<lparr>confusion_matrix := [0, 0, 0, 0, 3, 1, 0, 0, 2]\<rparr>"]
  apply (intro exI [of _ "(fst (initialize default_options 2))\<lparr>confusion_matrix := [0, 0, 0, 0, 3, 1, 0, 0, 2]\<rparr>"])
  apply (simp add: initialize_def new_task_data_def default_options_def Let_def IDX_def trueC_def predC_def
      upt_conv_Cons atLeastAtMost_upt)
  apply (elim conjE)
  apply simp
  done

text \<open>
  The same numbers from a run: the episode of six nodes with the predictions 1, 1, 1, 2,
  2, 2 fills the confusion matrix of the example, and the loss reported is
  \<open>1438047 / 8388608\<close>.
\<close>

lemma run_reports_macro_f1_loss:
  "\<exists>D D' ec' reqs.
     setup_task (plain_vw [] True) (fst (initialize default_options 2)) six_labelled_nodes = Inr D
     \<and> run (plain_vw [] True) threshold_search D six_labelled_nodes
         = Inr (D', ec', reqs, Some (1438047 / 8388608))
     \<and> pred D' = [1, 1, 1, 2, 2, 2]
     \<and> confusion_matrix D' = [0, 0, 0, 0, 3, 1, 0, 0, 2]"
  apply (simp add: setup_defs episode_defs six_labelled_nodes_def eval_simps)
  apply (simp add: pass_defs episode_defs threshold_search_def eval_simps macro_f_example fl32_f1_loss)
  done

section \<open>The features injected for an edge\<close>

text \<open>
  The injection as the specification words it, next to \<open>add_edge\<close> of the source. The
  contributing neighbors of an edge with the costs \<open>cs\<close>, seen from node \<open>n\<close>, are the
  endpoints other than \<open>n\<close>; the label bucket of a neighbor is its prediction minus one;
  the histogram count of a bucket is the number of contributing neighbors in it. For one
  feature of the edge, \<open>injected\<close> is the list of the features the specification asks
  for: none without a contributor, the feature with its value at the bucket of the
  neighbor with one contributor, and one feature for every bucket with a nonzero count,
  the value multiplied (in \<open>float\<close>) by the count, with two contributors or more.
\<close>

definition contributors :: "u32 \<Rightarrow> u32 list \<Rightarrow> u32 list" where
  "contributors n cs = filter (\<lambda>ci. unat (ci - 1) \<noteq> unat n) cs"

definition label_bucket :: "task_data \<Rightarrow> u32 \<Rightarrow> nat" where
  "label_bucket D ci = pred D ! unat (ci - 1) - 1"

definition hist_count :: "task_data \<Rightarrow> u32 \<Rightarrow> u32 list \<Rightarrow> nat \<Rightarrow> nat" where
  "hist_count D n cs k = length (filter (\<lambda>ci. label_bucket D ci = k) (contributors n cs))"

definition injected :: "task_data \<Rightarrow> u32 \<Rightarrow> u32 list \<Rightarrow> feature \<Rightarrow> feature list" where
  "injected D n cs f =
     (if use_structure D
      then (case contributors n cs of
              [] \<Rightarrow> []
            | [ci] \<Rightarrow> [(fst f, bucket D (snd f) (label_bucket D ci))]
            | _ \<Rightarrow> map (\<lambda>k. (fmul (fst f) (real (hist_count D n cs k)), bucket D (snd f) k))
                      (filter (\<lambda>k. hist_count D n cs k \<noteq> 0) [0..<K D + 1]))
      else [(fst f, bucket D (snd f) 0)])"

definition push_all :: "vw \<Rightarrow> feature list \<Rightarrow> example \<Rightarrow> example" where
  "push_all all fs node = foldl (\<lambda>nd f. push_neighbor all f nd) node fs"

lemma foldE_append:
  "foldE f (xs @ ys) s = (case foldE f xs s of Inl e \<Rightarrow> Inl e | Inr s' \<Rightarrow> foldE f ys s')"
  by (induction xs arbitrary: s) (auto split: sum.splits)

lemma push_all_append: "push_all all (fs @ gs) node = push_all all gs (push_all all fs node)"
  by (simp add: push_all_def)

lemma map_upt_update:
  assumes "p < L"
  shows "(map f [0..<L] @ r)[p := v] = map (f(p := v)) [0..<L] @ r"
proof (rule nth_equalityI)
  show "length ((map f [0..<L] @ r)[p := v]) = length (map (f(p := v)) [0..<L] @ r)" by simp
next
  fix i assume "i < length ((map f [0..<L] @ r)[p := v])"
  then show "(map f [0..<L] @ r)[p := v] ! i = (map (f(p := v)) [0..<L] @ r) ! i"
    using assms by (cases "i < L") (auto simp: nth_append nth_list_update)
qed

lemma hist_count_le: "hist_count D n cs k \<le> length (contributors n cs)"
  by (simp add: hist_count_def)

lemma fadd_one_exact: "a + 1 < 2 ^ 24 \<Longrightarrow> fadd (real a) 1 = real (a + 1)"
  using fl32_nat_exact [of "a + 1"] by (simp add: fadd_def add.commute)

lemma count_neighbor_fold:
  assumes "\<forall>ci\<in>set (contributors n cs). unat (ci - 1) < length (pred D)
             \<and> 1 \<le> pred D ! unat (ci - 1) \<and> pred D ! unat (ci - 1) \<le> L"
    and "length (contributors n cs) < 2 ^ 24"
  shows "foldE (count_neighbor D n) cs (replicate L 0 @ r, 0, 0) =
           Inr (map (\<lambda>k. real (hist_count D n cs k)) [0..<L] @ r,
                real (length (contributors n cs)),
                if contributors n cs = [] then 0
                else word_of_nat (label_bucket D (last (contributors n cs))))"
  using assms
proof (induction cs rule: rev_induct)
  case Nil
  have "replicate L (0::real) = map (\<lambda>k. 0) [0..<L]" by (simp add: map_replicate_const)
  then show ?case by (simp add: contributors_def hist_count_def)
next
  case (snoc c cs)
  show ?case
  proof (cases "unat (c - 1) = unat n")
    case True
    then have same: "contributors n (cs @ [c]) = contributors n cs" by (simp add: contributors_def)
    then have h: "hist_count D n (cs @ [c]) = hist_count D n cs" by (simp add: hist_count_def fun_eq_iff)
    from snoc.prems same have
      "foldE (count_neighbor D n) cs (replicate L 0 @ r, 0, 0) =
           Inr (map (\<lambda>k. real (hist_count D n cs k)) [0..<L] @ r,
                real (length (contributors n cs)),
                if contributors n cs = [] then 0
                else word_of_nat (label_bucket D (last (contributors n cs))))"
      by (intro snoc.IH) simp_all
    then have ih: "foldE (count_neighbor D n) cs (replicate L 0 @ r, 0, 0) =
           Inr (map (\<lambda>k. real (hist_count D n (cs @ [c]) k)) [0..<L] @ r,
                real (length (contributors n (cs @ [c]))),
                if contributors n (cs @ [c]) = [] then 0
                else word_of_nat (label_bucket D (last (contributors n (cs @ [c])))))"
      by (simp only: same h)
    have skip: "count_neighbor D n c st = Inr st" for st
      using True by (simp add: count_neighbor_def Let_def)
    show ?thesis unfolding foldE_append ih sum.case foldE.simps skip by simp
  next
    case False
    then have ext: "contributors n (cs @ [c]) = contributors n cs @ [c]" by (simp add: contributors_def)
    define p where "p = label_bucket D c"
    from snoc.prems(1) ext have c: "unat (c - 1) < length (pred D)" "1 \<le> pred D ! unat (c - 1)"
      "pred D ! unat (c - 1) \<le> L" by simp_all
    then have pL: "p < L" by (simp add: p_def label_bucket_def)
    from c have sub: "size_t_sub (pred D ! unat (c - 1)) 1 = p"
      by (simp add: size_t_sub_def p_def label_bucket_def)
    from snoc.prems ext have
      ih: "foldE (count_neighbor D n) cs (replicate L 0 @ r, 0, 0) =
           Inr (map (\<lambda>k. real (hist_count D n cs k)) [0..<L] @ r,
                real (length (contributors n cs)),
                if contributors n cs = [] then 0
                else word_of_nat (label_bucket D (last (contributors n cs))))"
      by (intro snoc.IH) simp_all
    from snoc.prems(2) ext have t: "length (contributors n cs) + 1 < 2 ^ 24" by simp
    have "hist_count D n cs p \<le> length (contributors n cs)" by (rule hist_count_le)
    with t have hp: "hist_count D n cs p + 1 < 2 ^ 24" by simp
    have hc: "(\<lambda>k. real (hist_count D n (cs @ [c]) k)) = (\<lambda>k. real (hist_count D n cs k))(p := real (hist_count D n cs p + 1))"
      by (auto simp: fun_eq_iff hist_count_def ext p_def)
    have nthp: "(map (\<lambda>k. real (hist_count D n cs k)) [0..<L] @ r) ! p = real (hist_count D n cs p)"
      using pL by (simp add: nth_append)
    have step: "count_neighbor D n c (map (\<lambda>k. real (hist_count D n cs k)) [0..<L] @ r,
                real (length (contributors n cs)),
                if contributors n cs = [] then 0
                else word_of_nat (label_bucket D (last (contributors n cs))))
        = Inr (map (\<lambda>k. real (hist_count D n (cs @ [c]) k)) [0..<L] @ r,
               real (length (contributors n cs) + 1), word_of_nat p)"
      unfolding count_neighbor_def Let_def sub fst_conv snd_conv nthp hc
      using False c(1) pL
      by (simp add: map_upt_update fadd_one_exact [OF hp] fadd_one_exact [OF t] del: of_nat_add of_nat_Suc)
    show ?thesis
      unfolding foldE_append ih sum.case foldE.simps step
      by (simp add: ext p_def)
  qed
qed

lemma aligned_iff: "(a div m) * m \<noteq> a \<longleftrightarrow> \<not> m dvd (a::nat)"
  by (metis dvd_div_mult_self dvd_triv_right)

lemma single_fold:
  assumes "multiplier D \<noteq> 0" and "0 < length (neighbor_predictions D)"
    and "\<forall>f\<in>set fs. multiplier D dvd unat (snd f)"
  shows "foldE (add_edge_features_single_fn all D) fs node =
           Inr (push_all all
                  (map (\<lambda>f. (fst f, bucket D (snd f) (nat \<lfloor>neighbor_predictions D ! 0\<rfloor>))) fs) node)"
  using assms(3)
proof (induction fs arbitrary: node)
  case Nil
  show ?case by (simp add: push_all_def)
next
  case (Cons f fs)
  from Cons.prems assms(1,2) have
    "add_edge_features_single_fn all D f node =
       Inr (push_neighbor all (fst f, bucket D (snd f) (nat \<lfloor>neighbor_predictions D ! 0\<rfloor>)) node)"
    by (simp add: add_edge_features_single_fn_def aligned_iff)
  moreover from Cons.prems have "\<forall>f\<in>set fs. multiplier D dvd unat (snd f)" by simp
  ultimately show ?case by (simp add: Cons.IH push_all_def)
qed

lemma group_inner:
  assumes "\<forall>k\<in>set ks. k < length np"
  shows "foldE (\<lambda>k nd. if length np \<le> k then Inl OutOfBounds
                        else if np ! k = 0 then Inr nd
                        else Inr (push_neighbor all (g k) nd)) ks node =
           Inr (push_all all (map g (filter (\<lambda>k. np ! k \<noteq> 0) ks)) node)"
  using assms by (induction ks arbitrary: node) (simp_all add: push_all_def)

lemma group_fold:
  assumes "multiplier D \<noteq> 0" and "K D + 1 \<le> length (neighbor_predictions D)"
    and "\<forall>f\<in>set fs. multiplier D dvd unat (snd f)"
  shows "foldE (add_edge_features_group_fn all D) fs node =
           Inr (push_all all
                  (concat (map (\<lambda>f. map (\<lambda>k. (fmul (fst f) (neighbor_predictions D ! k), bucket D (snd f) k))
                                      (filter (\<lambda>k. neighbor_predictions D ! k \<noteq> 0) [0..<K D + 1])) fs))
                  node)"
  using assms(3)
proof (induction fs arbitrary: node)
  case Nil
  show ?case by (simp add: push_all_def)
next
  case (Cons f fs)
  have r: "\<forall>k\<in>set [0..<K D + 1]. k < length (neighbor_predictions D)" using assms(2) by auto
  from Cons.prems assms(1) have
    "add_edge_features_group_fn all D f node =
       foldE (\<lambda>k nd. if length (neighbor_predictions D) \<le> k then Inl OutOfBounds
                      else if neighbor_predictions D ! k = 0 then Inr nd
                      else Inr (push_neighbor all
                                 (fmul (fst f) (neighbor_predictions D ! k), bucket D (snd f) k) nd))
         [0..<K D + 1] node"
    by (simp add: add_edge_features_group_fn_def aligned_iff del: upt_Suc)
  also have "\<dots> =
       Inr (push_all all (map (\<lambda>k. (fmul (fst f) (neighbor_predictions D ! k), bucket D (snd f) k))
                            (filter (\<lambda>k. neighbor_predictions D ! k \<noteq> 0) [0..<K D + 1])) node)"
    by (rule group_inner [OF r])
  finally have
    "add_edge_features_group_fn all D f node =
       Inr (push_all all (map (\<lambda>k. (fmul (fst f) (neighbor_predictions D ! k), bucket D (snd f) k))
                            (filter (\<lambda>k. neighbor_predictions D ! k \<noteq> 0) [0..<K D + 1])) node)" .
  moreover from Cons.prems have "\<forall>f\<in>set fs. multiplier D dvd unat (snd f)" by simp
  ultimately show ?case by (simp add: Cons.IH push_all_append del: upt_Suc)
qed

lemma bucket_neighbor_predictions:
  "bucket (D\<lparr>neighbor_predictions := x\<rparr>) fx k = bucket D fx k"
  by (simp add: bucket_def)

lemma concat_map_singleton: "concat (map (\<lambda>f. [g f]) fs) = map g fs"
  by (induction fs) simp_all

lemma concat_map_Nil: "concat (map (\<lambda>f. []) fs) = []"
  by (induction fs) simp_all

lemma histogram_eq:
  assumes "use_structure D" and "K D + 1 \<le> length (neighbor_predictions D)"
    and "length (contributors n (costs edge)) < 2 ^ 24"
    and "\<forall>ci\<in>set (contributors n (costs edge)). unat (ci - 1) < length (pred D)
           \<and> 1 \<le> pred D ! unat (ci - 1) \<and> pred D ! unat (ci - 1) \<le> K D + 1"
  shows "histogram D n edge =
           Inr (map (\<lambda>k. real (hist_count D n (costs edge) k)) [0..<K D + 1]
                  @ drop (K D + 1) (neighbor_predictions D),
                real (length (contributors n (costs edge))),
                if contributors n (costs edge) = [] then 0
                else word_of_nat (label_bucket D (last (contributors n (costs edge)))))"
  unfolding histogram_def Let_def
  using assms(1,2) count_neighbor_fold [OF assms(4) assms(3), of "drop (K D + 1) (neighbor_predictions D)"]
  by simp

lemma add_edge_eq:
  assumes "use_structure D" and "multiplier D \<noteq> 0"
    and "K D + 1 \<le> length (neighbor_predictions D)" and "K D < 2 ^ 24" and "i < length ec"
    and "length (contributors n (costs (ec ! i))) < 2 ^ 24"
    and "\<forall>ci\<in>set (contributors n (costs (ec ! i))). unat (ci - 1) < length (pred D)
           \<and> 1 \<le> pred D ! unat (ci - 1) \<and> pred D ! unat (ci - 1) \<le> K D + 1"
    and "\<forall>f\<in>set (foreach_feature all (ec ! i)). multiplier D dvd unat (snd f)"
  shows "\<exists>np. length np = length (neighbor_predictions D)
           \<and> add_edge all n i (D, ec) =
               Inr (D\<lparr>neighbor_predictions := np\<rparr>,
                    ec[cur_node D := push_all all
                         (concat (map (injected D n (costs (ec ! i))) (foreach_feature all (ec ! i))))
                         (ec ! cur_node D)])"
proof -
  define cs where "cs = costs (ec ! i)"
  define fs where "fs = foreach_feature all (ec ! i)"
  define h where "h = map (\<lambda>k. real (hist_count D n cs k)) [0..<K D + 1]
                  @ drop (K D + 1) (neighbor_predictions D)"
  have lh: "length h = length (neighbor_predictions D)" using assms(3) by (simp add: h_def)
  have hk: "h ! k = real (hist_count D n cs k)" if "k < K D + 1" for k
    using that by (simp add: h_def nth_append del: upt_Suc)
  have hist: "histogram D n (ec ! i) =
      Inr (h, real (length (contributors n cs)),
           if contributors n cs = [] then 0 else word_of_nat (label_bucket D (last (contributors n cs))))"
    unfolding h_def cs_def by (rule histogram_eq [OF assms(1,3,6,7)])
  have al: "\<forall>f\<in>set fs. multiplier D dvd unat (snd f)" using assms(8) by (simp add: fs_def)
  show ?thesis
  proof (cases "contributors n cs")
    case Nil
    then have "injected D n cs = (\<lambda>f. [])" by (simp add: injected_def assms(1) fun_eq_iff)
    then have cc: "concat (map (injected D n cs) fs) = []" by (simp add: concat_map_Nil)
    have e: "ec[cur_node D := push_all all (concat (map (injected D n cs) fs)) (ec ! cur_node D)] = ec"
      unfolding cc by (simp add: push_all_def)
    have "add_edge all n i (D, ec) = Inr (D\<lparr>neighbor_predictions := h\<rparr>, ec)"
      using assms(5) Nil by (simp add: add_edge_def Let_def hist)
    with lh e show ?thesis unfolding cs_def fs_def by (intro exI [of _ h]) simp
  next
    case (Cons c1 rest)
    show ?thesis
    proof (cases rest)
      case Nil
      with Cons have C: "contributors n cs = [c1]" by simp
      define p where "p = label_bucket D c1"
      from assms(7) C have "1 \<le> pred D ! unat (c1 - 1)" "pred D ! unat (c1 - 1) \<le> K D + 1"
        by (simp_all add: cs_def)
      then have pK: "p \<le> K D" by (simp add: p_def label_bucket_def)
      with assms(4) have p24: "p < 2 ^ 24" by simp
      then have p32: "p < 2 ^ 32" by simp
      have up: "unat (word_of_nat p :: u32) = p" using p32 by (simp add: unat_of_nat)
      have fp: "float_of_nat p = real p" using p24 by (rule float_of_nat_exact)
      define D2 where "D2 = D\<lparr>neighbor_predictions := h[0 := real p]\<rparr>"
      have m2: "multiplier D2 \<noteq> 0" and l2: "0 < length (neighbor_predictions D2)"
        and a2: "\<forall>f\<in>set fs. multiplier D2 dvd unat (snd f)"
        and k2: "nat \<lfloor>neighbor_predictions D2 ! 0\<rfloor> = p"
      proof -
        from assms(3) lh have "Suc (K D) \<le> length h" by simp
        then have h0: "0 < length h" by (rule less_le_trans [OF zero_less_Suc])
        then have "h[0 := real p] ! 0 = real p" by simp
        then show "nat \<lfloor>neighbor_predictions D2 ! 0\<rfloor> = p" by (simp add: D2_def)
        from h0 show "0 < length (neighbor_predictions D2)" by (simp add: D2_def)
        from assms(2) show "multiplier D2 \<noteq> 0" by (simp add: D2_def)
        from al show "\<forall>f\<in>set fs. multiplier D2 dvd unat (snd f)" by (simp add: D2_def)
      qed
      have i1: "injected D n cs = (\<lambda>f. [(fst f, bucket D (snd f) p)])"
        by (simp add: injected_def assms(1) C p_def fun_eq_iff)
      have i2: "concat (map (injected D n cs) fs) = map (\<lambda>f. (fst f, bucket D (snd f) p)) fs"
        unfolding i1 by (rule concat_map_singleton)
      have sf: "foldE (add_edge_features_single_fn all D2) fs node =
                  Inr (push_all all (map (\<lambda>f. (fst f, bucket D (snd f) p)) fs) node)" for node
        using single_fold [OF m2 l2 a2, of all node]
        by (simp add: k2) (simp add: D2_def bucket_neighbor_predictions)
      have "add_edge all n i (D, ec) =
              Inr (D2, ec[cur_node D := push_all all (map (\<lambda>f. (fst f, bucket D (snd f) p)) fs)
                                         (ec ! cur_node D)])"
        using assms(5) C
        by (simp add: add_edge_def Let_def hist p_def [symmetric] up fp D2_def [symmetric]
            fs_def [symmetric] sf) (simp add: D2_def)
      with lh i2 show ?thesis unfolding cs_def fs_def D2_def by (intro exI [of _ "h[0 := real p]"]) simp
    next
      case (Cons c2 rest2)
      with \<open>contributors n cs = c1 # rest\<close> have C: "contributors n cs = c1 # c2 # rest2" by simp
      then have big: "\<not> real (length (contributors n cs)) \<le> 1" "real (length (contributors n cs)) \<noteq> 0"
        by simp_all
      define D1 where "D1 = D\<lparr>neighbor_predictions := h\<rparr>"
      have m1: "multiplier D1 \<noteq> 0" and l1: "K D1 + 1 \<le> length (neighbor_predictions D1)"
        and a1: "\<forall>f\<in>set fs. multiplier D1 dvd unat (snd f)"
        using assms(2,3) al lh by (simp_all add: D1_def)
      have f1: "filter (\<lambda>k. h ! k \<noteq> 0) [0..<K D + 1] = filter (\<lambda>k. hist_count D n cs k \<noteq> 0) [0..<K D + 1]"
        by (rule filter_cong) (auto simp: hk simp del: upt_Suc)
      have g1: "map (\<lambda>k. (fmul (fst f) (h ! k), bucket D (snd f) k)) (filter (\<lambda>k. hist_count D n cs k \<noteq> 0) [0..<K D + 1])
          = map (\<lambda>k. (fmul (fst f) (real (hist_count D n cs k)), bucket D (snd f) k))
              (filter (\<lambda>k. hist_count D n cs k \<noteq> 0) [0..<K D + 1])" for f
        by (rule map_cong) (auto simp: hk simp del: upt_Suc)
      have i0: "injected D n cs f = map (\<lambda>k. (fmul (fst f) (h ! k), bucket D1 (snd f) k))
                                      (filter (\<lambda>k. h ! k \<noteq> 0) [0..<K D1 + 1])" for f
      proof -
        have "injected D n cs f =
                map (\<lambda>k. (fmul (fst f) (real (hist_count D n cs k)), bucket D (snd f) k))
                  (filter (\<lambda>k. hist_count D n cs k \<noteq> 0) [0..<K D + 1])"
          by (simp add: injected_def assms(1) C del: upt_Suc)
        also have "\<dots> = map (\<lambda>k. (fmul (fst f) (h ! k), bucket D (snd f) k))
                  (filter (\<lambda>k. hist_count D n cs k \<noteq> 0) [0..<K D + 1])"
          by (rule g1 [symmetric])
        also have "\<dots> = map (\<lambda>k. (fmul (fst f) (h ! k), bucket D (snd f) k))
                  (filter (\<lambda>k. h ! k \<noteq> 0) [0..<K D + 1])"
          by (simp only: f1)
        finally show ?thesis by (simp add: D1_def bucket_neighbor_predictions del: upt_Suc)
      qed
      have i1: "injected D n cs = (\<lambda>f. map (\<lambda>k. (fmul (fst f) (h ! k), bucket D1 (snd f) k))
                                      (filter (\<lambda>k. h ! k \<noteq> 0) [0..<K D1 + 1]))"
        by (rule ext) (rule i0)
      have gf: "foldE (add_edge_features_group_fn all D1) fs node =
                  Inr (push_all all (concat (map (injected D n cs) fs)) node)" for node
        using group_fold [OF m1 l1 a1, of all node] unfolding i1 by (simp add: D1_def del: upt_Suc)
      have "add_edge all n i (D, ec) =
              Inr (D1, ec[cur_node D := push_all all (concat (map (injected D n cs) fs)) (ec ! cur_node D)])"
        using assms(5) big
        by (simp add: add_edge_def Let_def hist D1_def [symmetric] fs_def [symmetric] gf)
          (simp add: D1_def)
      with lh show ?thesis unfolding cs_def fs_def D1_def by (intro exI [of _ h]) simp
    qed
  qed
qed

lemma add_edge_eq_flat:
  assumes "\<not> use_structure D" and "multiplier D \<noteq> 0"
    and "K D + 1 \<le> length (neighbor_predictions D)" and "i < length ec"
    and "\<forall>f\<in>set (foreach_feature all (ec ! i)). multiplier D dvd unat (snd f)"
  shows "\<exists>np. length np = length (neighbor_predictions D)
           \<and> add_edge all n i (D, ec) =
               Inr (D\<lparr>neighbor_predictions := np\<rparr>,
                    ec[cur_node D := push_all all
                         (concat (map (injected D n (costs (ec ! i))) (foreach_feature all (ec ! i))))
                         (ec ! cur_node D)])"
proof -
  define fs where "fs = foreach_feature all (ec ! i)"
  define np0 where "np0 = replicate (K D + 1) (0::real) @ drop (K D + 1) (neighbor_predictions D)"
  define h where "h = np0[0 := fadd (np0 ! 0) 1]"
  have l0: "length np0 = length (neighbor_predictions D)" using assms(3) by (simp add: np0_def)
  then have lh: "length h = length (neighbor_predictions D)" by (simp add: h_def)
  from assms(3) lh have "Suc (K D) \<le> length h" by simp
  then have h0: "0 < length h" by (rule less_le_trans [OF zero_less_Suc])
  have hist: "histogram D n (ec ! i) = Inr (h, 1, 0)"
    using assms(1,3) unfolding histogram_def Let_def h_def np0_def by (simp add: fadd_def fl32_1)
  define D2 where "D2 = D\<lparr>neighbor_predictions := h[0 := 0]\<rparr>"
  have m2: "multiplier D2 \<noteq> 0" and l2: "0 < length (neighbor_predictions D2)"
    and a2: "\<forall>f\<in>set fs. multiplier D2 dvd unat (snd f)"
    and k2: "nat \<lfloor>neighbor_predictions D2 ! 0\<rfloor> = 0"
    using assms(2,5) h0 by (simp_all add: D2_def fs_def)
  have i1: "injected D n (costs (ec ! i)) = (\<lambda>f. [(fst f, bucket D (snd f) 0)])"
    using assms(1) by (simp add: injected_def fun_eq_iff)
  have i2: "concat (map (injected D n (costs (ec ! i))) fs) = map (\<lambda>f. (fst f, bucket D (snd f) 0)) fs"
    unfolding i1 by (rule concat_map_singleton)
  have sf: "foldE (add_edge_features_single_fn all D2) fs node =
              Inr (push_all all (map (\<lambda>f. (fst f, bucket D (snd f) 0)) fs) node)" for node
    using single_fold [OF m2 l2 a2, of all node]
    by (simp add: k2) (simp add: D2_def bucket_neighbor_predictions)
  have "add_edge all n i (D, ec) =
          Inr (D2, ec[cur_node D := push_all all (map (\<lambda>f. (fst f, bucket D (snd f) 0)) fs)
                                     (ec ! cur_node D)])"
    using assms(4)
    by (simp add: add_edge_def Let_def hist float_of_nat_def fl32_0 D2_def [symmetric]
        fs_def [symmetric] sf) (simp add: D2_def)
  with lh i2 show ?thesis unfolding fs_def D2_def by (intro exI [of _ "h[0 := 0]"]) simp
qed

text \<open>
  What augmentation of node \<open>n\<close> needs of an incident edge, and of the task data and the
  episode: the multiplier is not zero and the index of every feature of the edge is a
  multiple of it; and when structure is used, the counters are exact in \<open>float\<close>
  (\<open>K\<close> and the number of contributing neighbors below \<open>2 ^ 24\<close>), the predictions of
  the other endpoints are labels \<open>1 .. K+1\<close> of nodes of the episode, and the product
  of a feature value and a histogram count stays in the range of \<open>float\<close>.
\<close>

definition edge_ok :: "vw \<Rightarrow> task_data \<Rightarrow> u32 \<Rightarrow> example \<Rightarrow> bool" where
  "edge_ok all D n edge \<longleftrightarrow>
     (\<forall>f\<in>set (foreach_feature all edge). multiplier D dvd unat (snd f))
     \<and> (use_structure D \<longrightarrow>
          length (contributors n (costs edge)) < 2 ^ 24
          \<and> (\<forall>ci\<in>set (contributors n (costs edge)). unat (ci - 1) < length (pred D)
                \<and> 1 \<le> pred D ! unat (ci - 1) \<and> pred D ! unat (ci - 1) \<le> K D + 1)
          \<and> (\<forall>f\<in>set (foreach_feature all edge). \<forall>k\<in>{0..K D}.
                float_finite (fst f * real (hist_count D n (costs edge) k))))"

definition augmentable :: "vw \<Rightarrow> task_data \<Rightarrow> u32 \<Rightarrow> example list \<Rightarrow> bool" where
  "augmentable all D n ec \<longleftrightarrow>
     multiplier D \<noteq> 0 \<and> (use_structure D \<longrightarrow> K D < 2 ^ 24)
     \<and> K D + 1 \<le> length (neighbor_predictions D)
     \<and> unat n < length ec \<and> unat n < length (adj D)
     \<and> (\<forall>i\<in>set (adj D ! unat n). i < length ec \<and> i \<noteq> unat n \<and> edge_ok all D n (ec ! i))"

definition injected_edges :: "vw \<Rightarrow> task_data \<Rightarrow> u32 \<Rightarrow> example list \<Rightarrow> nat list \<Rightarrow> feature list" where
  "injected_edges all D n ec es =
     concat (map (\<lambda>i. concat (map (injected D n (costs (ec ! i))) (foreach_feature all (ec ! i)))) es)"

lemma injected_neighbor_predictions:
  "injected (D\<lparr>neighbor_predictions := x\<rparr>) n cs = injected D n cs"
  by (rule ext) (simp add: injected_def hist_count_def label_bucket_def bucket_def split: list.split)

lemma injected_cur_node:
  "injected (D\<lparr>cur_node := x\<rparr>) n cs = injected D n cs"
  by (rule ext) (simp add: injected_def hist_count_def label_bucket_def bucket_def split: list.split)

lemma edge_ok_neighbor_predictions:
  "edge_ok all (D\<lparr>neighbor_predictions := x\<rparr>) n edge = edge_ok all D n edge"
  by (simp add: edge_ok_def hist_count_def label_bucket_def)

lemma edge_ok_cur_node:
  "edge_ok all (D\<lparr>cur_node := x\<rparr>) n edge = edge_ok all D n edge"
  by (simp add: edge_ok_def hist_count_def label_bucket_def)

lemma add_edge_injected:
  assumes "multiplier D \<noteq> 0" and "use_structure D \<longrightarrow> K D < 2 ^ 24"
    and "K D + 1 \<le> length (neighbor_predictions D)" and "i < length ec"
    and "edge_ok all D n (ec ! i)"
  shows "\<exists>np. length np = length (neighbor_predictions D)
           \<and> add_edge all n i (D, ec) =
               Inr (D\<lparr>neighbor_predictions := np\<rparr>,
                    ec[cur_node D := push_all all
                         (concat (map (injected D n (costs (ec ! i))) (foreach_feature all (ec ! i))))
                         (ec ! cur_node D)])"
proof (cases "use_structure D")
  case True
  from assms(5) True have a: "\<forall>f\<in>set (foreach_feature all (ec ! i)). multiplier D dvd unat (snd f)"
    and c: "length (contributors n (costs (ec ! i))) < 2 ^ 24"
    and p: "\<forall>ci\<in>set (contributors n (costs (ec ! i))). unat (ci - 1) < length (pred D)
           \<and> 1 \<le> pred D ! unat (ci - 1) \<and> pred D ! unat (ci - 1) \<le> K D + 1"
    by (simp_all add: edge_ok_def)
  from assms(2) True have k: "K D < 2 ^ 24" by simp
  show ?thesis by (rule add_edge_eq [OF True assms(1,3) k assms(4) c p a])
next
  case False
  from assms(5) have a: "\<forall>f\<in>set (foreach_feature all (ec ! i)). multiplier D dvd unat (snd f)"
    by (simp add: edge_ok_def)
  show ?thesis by (rule add_edge_eq_flat [OF False assms(1,3,4) a])
qed

lemma add_edges_fold:
  assumes "multiplier D \<noteq> 0" and "use_structure D \<longrightarrow> K D < 2 ^ 24"
    and "c < length ec"
    and "\<forall>i\<in>set es. i < length ec \<and> i \<noteq> c \<and> edge_ok all D n (ec ! i)"
    and "K D + 1 \<le> length np"
  shows "\<exists>np'. length np' = length np
           \<and> foldE (add_edge all n) es (D\<lparr>cur_node := c, neighbor_predictions := np\<rparr>, ec[c := nd]) =
               Inr (D\<lparr>cur_node := c, neighbor_predictions := np'\<rparr>,
                    ec[c := push_all all (injected_edges all D n ec es) nd])"
  using assms(4,5)
proof (induction es arbitrary: np nd)
  case Nil
  show ?case by (intro exI [of _ np]) (simp add: injected_edges_def push_all_def)
next
  case (Cons i es)
  define D1 where "D1 = D\<lparr>cur_node := c, neighbor_predictions := np\<rparr>"
  define ec1 where "ec1 = ec[c := nd]"
  define inj where "inj = concat (map (injected D n (costs (ec ! i))) (foreach_feature all (ec ! i)))"
  from Cons.prems have i: "i < length ec" "i \<noteq> c" and ok: "edge_ok all D n (ec ! i)" by simp_all
  from i have same: "ec1 ! i = ec ! i" by (simp add: ec1_def)
  have p1: "multiplier D1 \<noteq> 0" "use_structure D1 \<longrightarrow> K D1 < 2 ^ 24"
    "K D1 + 1 \<le> length (neighbor_predictions D1)" "i < length ec1"
    using assms(1,2) Cons.prems(2) i by (simp_all add: D1_def ec1_def)
  from ok have p2: "edge_ok all D1 n (ec1 ! i)"
    unfolding same D1_def by (simp add: edge_ok_neighbor_predictions edge_ok_cur_node)
  have "\<exists>np1. length np1 = length (neighbor_predictions D1)
           \<and> add_edge all n i (D1, ec1) =
               Inr (D1\<lparr>neighbor_predictions := np1\<rparr>,
                    ec1[cur_node D1 := push_all all
                         (concat (map (injected D1 n (costs (ec1 ! i))) (foreach_feature all (ec1 ! i))))
                         (ec1 ! cur_node D1)])"
    by (rule add_edge_injected [OF p1 p2])
  then obtain np1 where l0: "length np1 = length (neighbor_predictions D1)"
    and s0: "add_edge all n i (D1, ec1) =
               Inr (D1\<lparr>neighbor_predictions := np1\<rparr>,
                    ec1[cur_node D1 := push_all all
                         (concat (map (injected D1 n (costs (ec1 ! i))) (foreach_feature all (ec1 ! i))))
                         (ec1 ! cur_node D1)])"
    by blast
  have inj1: "concat (map (injected D1 n (costs (ec1 ! i))) (foreach_feature all (ec1 ! i))) = inj"
    unfolding same inj_def D1_def by (simp add: injected_neighbor_predictions injected_cur_node)
  have e1: "ec1[cur_node D1 := push_all all inj (ec1 ! cur_node D1)] = ec[c := push_all all inj nd]"
    using assms(3) by (simp add: D1_def ec1_def)
  have d1: "D1\<lparr>neighbor_predictions := np1\<rparr> = D\<lparr>cur_node := c, neighbor_predictions := np1\<rparr>"
    by (simp add: D1_def)
  from l0 have l1: "length np1 = length np" by (simp add: D1_def)
  from s0 have s1: "add_edge all n i (D1, ec1) =
               Inr (D\<lparr>cur_node := c, neighbor_predictions := np1\<rparr>, ec[c := push_all all inj nd])"
    unfolding inj1 e1 d1 .
  from Cons.prems l1 have "\<exists>np'. length np' = length np1
           \<and> foldE (add_edge all n) es (D\<lparr>cur_node := c, neighbor_predictions := np1\<rparr>, ec[c := push_all all inj nd]) =
               Inr (D\<lparr>cur_node := c, neighbor_predictions := np'\<rparr>,
                    ec[c := push_all all (injected_edges all D n ec es) (push_all all inj nd)])"
    by (intro Cons.IH) simp_all
  then obtain np' where l2: "length np' = length np1"
    and s2: "foldE (add_edge all n) es (D\<lparr>cur_node := c, neighbor_predictions := np1\<rparr>, ec[c := push_all all inj nd]) =
               Inr (D\<lparr>cur_node := c, neighbor_predictions := np'\<rparr>,
                    ec[c := push_all all (injected_edges all D n ec es) (push_all all inj nd)])"
    by blast
  have "injected_edges all D n ec (i # es) = inj @ injected_edges all D n ec es"
    by (simp add: injected_edges_def inj_def)
  then have "push_all all (injected_edges all D n ec (i # es)) nd
           = push_all all (injected_edges all D n ec es) (push_all all inj nd)"
    by (simp add: push_all_append)
  with l1 l2 s1 s2 show ?case
    by (intro exI [of _ np']) (simp add: D1_def [symmetric] ec1_def [symmetric])
qed

lemma atomics_push_all:
  "atomics (push_all all fs nd) (neighbor_namespace all) = atomics nd (neighbor_namespace all) @ fs"
proof (induction fs arbitrary: nd)
  case Nil
  show ?case by (simp add: push_all_def)
next
  case (Cons f fs)
  have "push_all all (f # fs) nd = push_all all fs (push_neighbor all f nd)" by (simp add: push_all_def)
  then show ?case by (simp add: Cons.IH) (simp add: push_neighbor_def)
qed

lemma add_pair_atomics: "add_pair all p nd = Inr nd' \<Longrightarrow> atomics nd' = atomics nd"
  by (auto simp: add_pair_def Let_def split: if_splits)

lemma augment_fold:
  assumes "augmentable all D n ec"
  shows "\<exists>np. foldE (add_edge all n) (adj D ! unat n) (D\<lparr>cur_node := unat n\<rparr>, ec) =
               Inr (D\<lparr>cur_node := unat n, neighbor_predictions := np\<rparr>,
                    ec[unat n := push_all all (injected_edges all D n ec (adj D ! unat n)) (ec ! unat n)])"
proof -
  from assms have a: "multiplier D \<noteq> 0" "use_structure D \<longrightarrow> K D < 2 ^ 24" "unat n < length ec"
    "\<forall>i\<in>set (adj D ! unat n). i < length ec \<and> i \<noteq> unat n \<and> edge_ok all D n (ec ! i)"
    "K D + 1 \<le> length (neighbor_predictions D)"
    by (simp_all add: augmentable_def)
  have d: "D\<lparr>cur_node := unat n, neighbor_predictions := neighbor_predictions D\<rparr> = D\<lparr>cur_node := unat n\<rparr>"
    by simp
  have e: "ec[unat n := ec ! unat n] = ec" by simp
  from add_edges_fold [OF a, of "ec ! unat n"] show ?thesis unfolding d e by blast
qed

lemma add_edge_features_atomics:
  assumes "augmentable all D n ec" and "add_edge_features all D n ec = Inr (D', ec')"
  shows "atomics (ec' ! unat n) (neighbor_namespace all) =
           atomics (ec ! unat n) (neighbor_namespace all) @ injected_edges all D n ec (adj D ! unat n)"
proof -
  from assms(1) have n: "unat n < length ec" by (simp add: augmentable_def)
  from augment_fold [OF assms(1)] obtain np where
    f: "foldE (add_edge all n) (adj D ! unat n) (D\<lparr>cur_node := unat n\<rparr>, ec) =
               Inr (D\<lparr>cur_node := unat n, neighbor_predictions := np\<rparr>,
                    ec[unat n := push_all all (injected_edges all D n ec (adj D ! unat n)) (ec ! unat n)])"
    by blast
  define node where "node = push_all all (injected_edges all D n ec (adj D ! unat n)) (ec ! unat n)"
  define node1 where "node1 = node\<lparr>indices := indices node @ [neighbor_namespace all],
                                  total_sum_feat_sq := fadd (total_sum_feat_sq node)
                                     (sum_feat_sq node (neighbor_namespace all)),
                                  num_features := num_features node
                                     + word_of_nat (length (atomics node (neighbor_namespace all)))\<rparr>"
  from assms(2) n obtain node2 where p: "foldE (add_pair all) (pairs all) node1 = Inr node2"
    and e: "ec' = (ec[unat n := node])[unat n := node2]"
    unfolding add_edge_features_def f node_def [symmetric]
    by (auto simp: Let_def node1_def split: if_splits sum.splits)
  have "atomics node2 = atomics node1"
    by (rule foldE_invariant [OF p, where P = "\<lambda>nd. atomics nd = atomics node1"])
       (auto dest: add_pair_atomics)
  then have "atomics node2 = atomics node" by (simp add: node1_def)
  with e n show ?thesis by (simp add: node_def atomics_push_all)
qed

lemma sum_list_nonzero:
  fixes h :: "nat \<Rightarrow> nat"
  shows "sum_list (map h (filter (\<lambda>k. h k \<noteq> 0) ks)) = sum_list (map h ks)"
  by (induction ks) simp_all

lemma sum_list_scale:
  fixes h :: "nat \<Rightarrow> nat" and a :: real
  shows "sum_list (map (\<lambda>k. a * real (h k)) ks) = a * real (sum_list (map h ks))"
  by (induction ks) (simp_all add: algebra_simps)

lemma sum_list_indicator:
  "sum_list (map (\<lambda>k. if p = k then 1 else 0) [0..<L]) = (if p < L then 1 else (0::nat))"
  by (induction L) auto

lemma hist_count_total:
  assumes "\<forall>ci\<in>set cs. g ci < L"
  shows "sum_list (map (\<lambda>k. length (filter (\<lambda>ci. g ci = k) cs)) [0..<L]) = length cs"
  using assms
proof (induction cs)
  case Nil
  show ?case by simp
next
  case (Cons c cs)
  have "sum_list (map (\<lambda>k. length (filter (\<lambda>ci. g ci = k) (c # cs))) [0..<L])
      = sum_list (map (\<lambda>k. (if g c = k then 1 else 0) + length (filter (\<lambda>ci. g ci = k) cs)) [0..<L])"
    by (intro arg_cong [where f = sum_list] map_cong) auto
  also have "\<dots> = sum_list (map (\<lambda>k. if g c = k then 1 else 0) [0..<L])
                   + sum_list (map (\<lambda>k. length (filter (\<lambda>ci. g ci = k) cs)) [0..<L])"
    by (rule sum_list_addf)
  also have "\<dots> = 1 + length cs" using Cons by (simp add: sum_list_indicator)
  finally show ?case by simp
qed

lemma injected_group_sum:
  assumes "2 \<le> length (contributors n cs)"
    and "\<forall>ci\<in>set (contributors n cs). label_bucket D ci \<le> K D"
    and "\<forall>k\<in>{0..K D}. fmul (fst f) (real (hist_count D n cs k)) = fst f * real (hist_count D n cs k)"
    and "use_structure D"
  shows "sum_list (map fst (injected D n cs f)) = fst f * real (length (contributors n cs))"
proof -
  let ?h = "hist_count D n cs"
  let ?ks = "filter (\<lambda>k. ?h k \<noteq> 0) [0..<K D + 1]"
  from assms(1) obtain c1 c2 rest where C: "contributors n cs = c1 # c2 # rest"
    by (cases "contributors n cs"; cases "tl (contributors n cs)") auto
  then have "injected D n cs f = map (\<lambda>k. (fmul (fst f) (real (?h k)), bucket D (snd f) k)) ?ks"
    using assms(4) by (simp add: injected_def del: upt_Suc)
  then have "sum_list (map fst (injected D n cs f)) = sum_list (map (\<lambda>k. fmul (fst f) (real (?h k))) ?ks)"
    by (simp add: comp_def del: upt_Suc)
  also have "\<dots> = sum_list (map (\<lambda>k. fst f * real (?h k)) ?ks)"
    using assms(3) by (intro arg_cong [where f = sum_list] map_cong) (auto simp del: upt_Suc)
  also have "\<dots> = fst f * real (sum_list (map ?h ?ks))"
    by (rule sum_list_scale)
  also have "sum_list (map ?h ?ks) = sum_list (map ?h [0..<K D + 1])" by (rule sum_list_nonzero)
  also have "\<dots> = length (contributors n cs)"
    unfolding hist_count_def using assms(2) by (intro hist_count_total) auto
  finally show ?thesis .
qed

text \<open>
  Six nodes and one edge that joins all of them; the feature of the edge has the value
  \<open>fv\<close> and the sum of squares \<open>sq\<close>.
\<close>

definition hyperedge_episode :: "float \<Rightarrow> float \<Rightarrow> example list" where
  "hyperedge_episode fv sq =
     six_labelled_nodes @ [single_feature_example [1, 2, 3, 4, 5, 6] 101 (fv, 9) sq]"

text \<open>
  Three nodes, an edge record that names the first node twice and an edge that joins the
  three nodes; and the options with \<open>--search_graph_no_structure\<close>.
\<close>

definition loop_and_hyperedge :: "example list" where
  "loop_and_hyperedge =
     [single_feature_example [1] 97 (1, 1) 1, single_feature_example [2] 97 (1, 2) 1,
      single_feature_example [1] 97 (1, 3) 1,
      single_feature_example [1, 1] 101 (1, 9) 1, single_feature_example [1, 2, 3] 101 (1, 18) 1]"

definition no_structure_options :: options where
  "no_structure_options = \<lparr>search_graph_num_loops = None, search_graph_no_structure = True,
     search_graph_separate_learners = False\<rparr>"

lemma fl32_double_next_after_one: "fl32 (8388609 / 4194304) = 8388609 / 4194304"
  using fl32_binade [of 1 "8388609 / 4194304"] by (simp add: round_even_def Let_def)

lemma fl32_triple_next_after_one: "fl32 (25165827 / 8388608) = 6291457 / 2097152"
  using fl32_binade [of 1 "25165827 / 8388608"] by (simp add: round_even_def Let_def)

lemma fl32_sum_of_injected: "fl32 (20971523 / 4194304) = 5242881 / 1048576"
  using fl32_binade [of 2 "20971523 / 4194304"] by (simp add: round_even_def Let_def)

lemma fl32_five_next_after_one: "fl32 (41943045 / 8388608) = 10485761 / 2097152"
  using fl32_binade [of 2 "41943045 / 8388608"] by (simp add: round_even_def Let_def)

text \<open>
  A counter of the histogram does not count beyond \<open>2 ^ 24\<close>: adding one to the
  \<open>float\<close> \<open>2 ^ 24\<close> gives \<open>2 ^ 24\<close>.
\<close>

lemma histogram_counter_saturates: "fadd 16777216 1 = 16777216"
  using fl32_binade [of 24 16777217] by (simp add: fadd_def round_even_def Let_def)

text \<open>
  Claim C5, amended. For a node \<open>n\<close> that is augmentable (the multiplier is not zero and
  the indices of the features of the incident edges are multiples of it; and when
  structure is used, the predictions of the other endpoints are in \<open>1 .. K+1\<close>, \<open>K\<close> and
  the number of contributing neighbors of an edge are below \<open>2 ^ 24\<close>, and the products
  of feature values and histogram counts are in the range of \<open>float\<close>): the loop of
  \<open>add_edge_features\<close> over the incident edges succeeds, changes no other example, and
  appends to the neighbor namespace of the node, edge by edge and feature by feature,
  the features of \<open>injected\<close>. Without structure these are, for every incident edge
  whatever its endpoints, the feature once with its value unchanged at \<open>bucket D fx 0\<close>.
  With structure they are nothing for an edge without a contributing neighbor; the
  feature once, with its value unchanged, at \<open>bucket D fx k\<close> for the label bucket \<open>k\<close>
  of the neighbor, when exactly one neighbor contributes; and with two or more, for
  every bucket \<open>k\<close> in \<open>0 .. K\<close> with a nonzero count, a feature at \<open>bucket D fx k\<close> whose
  value is the \<open>float\<close> product of the value and the count, a finite \<open>float\<close>. The sum of
  these values is the value times the number of contributing neighbors when each of the
  products is exact.
\<close>

theorem neighbor_encoding_of_an_edge:
  assumes "augmentable all D n ec"
  shows "(\<exists>D' ec'. foldE (add_edge all n) (adj D ! unat n) (D\<lparr>cur_node := unat n\<rparr>, ec) = Inr (D', ec')
            \<and> length ec' = length ec \<and> (\<forall>i. i \<noteq> unat n \<longrightarrow> ec' ! i = ec ! i)
            \<and> atomics (ec' ! unat n) (neighbor_namespace all) =
                 atomics (ec ! unat n) (neighbor_namespace all)
                   @ injected_edges all D n ec (adj D ! unat n))
       \<and> (\<forall>D' ec'. add_edge_features all D n ec = Inr (D', ec') \<longrightarrow>
            atomics (ec' ! unat n) (neighbor_namespace all) =
              atomics (ec ! unat n) (neighbor_namespace all) @ injected_edges all D n ec (adj D ! unat n))
       \<and> (\<forall>i\<in>set (adj D ! unat n). \<forall>f\<in>set (foreach_feature all (ec ! i)).
            (\<not> use_structure D \<longrightarrow>
               injected D n (costs (ec ! i)) f = [(fst f, bucket D (snd f) 0)])
          \<and> (use_structure D \<longrightarrow>
               (contributors n (costs (ec ! i)) = [] \<longrightarrow> injected D n (costs (ec ! i)) f = [])
             \<and> (\<forall>ci. contributors n (costs (ec ! i)) = [ci] \<longrightarrow>
                   injected D n (costs (ec ! i)) f = [(fst f, bucket D (snd f) (label_bucket D ci))])
             \<and> (2 \<le> length (contributors n (costs (ec ! i))) \<longrightarrow>
                   injected D n (costs (ec ! i)) f =
                     map (\<lambda>k. (fmul (fst f) (real (hist_count D n (costs (ec ! i)) k)), bucket D (snd f) k))
                       (filter (\<lambda>k. hist_count D n (costs (ec ! i)) k \<noteq> 0) [0..<K D + 1])
                 \<and> (\<forall>k\<in>{0..K D}. \<bar>fmul (fst f) (real (hist_count D n (costs (ec ! i)) k))\<bar> \<le> float_max)
                 \<and> ((\<forall>k\<in>{0..K D}. fmul (fst f) (real (hist_count D n (costs (ec ! i)) k))
                                     = fst f * real (hist_count D n (costs (ec ! i)) k))
                     \<longrightarrow> sum_list (map fst (injected D n (costs (ec ! i)) f))
                           = fst f * real (length (contributors n (costs (ec ! i))))))))"
proof (intro conjI ballI allI impI)
  from assms have n: "unat n < length ec" by (simp add: augmentable_def)
  from augment_fold [OF assms] obtain np where
    f: "foldE (add_edge all n) (adj D ! unat n) (D\<lparr>cur_node := unat n\<rparr>, ec) =
               Inr (D\<lparr>cur_node := unat n, neighbor_predictions := np\<rparr>,
                    ec[unat n := push_all all (injected_edges all D n ec (adj D ! unat n)) (ec ! unat n)])"
    by blast
  let ?ec' = "ec[unat n := push_all all (injected_edges all D n ec (adj D ! unat n)) (ec ! unat n)]"
  have "length ?ec' = length ec \<and> (\<forall>i. i \<noteq> unat n \<longrightarrow> ?ec' ! i = ec ! i)
      \<and> atomics (?ec' ! unat n) (neighbor_namespace all) =
           atomics (ec ! unat n) (neighbor_namespace all) @ injected_edges all D n ec (adj D ! unat n)"
    using n by (simp add: atomics_push_all)
  with f show "\<exists>D' ec'. foldE (add_edge all n) (adj D ! unat n) (D\<lparr>cur_node := unat n\<rparr>, ec) = Inr (D', ec')
            \<and> length ec' = length ec \<and> (\<forall>i. i \<noteq> unat n \<longrightarrow> ec' ! i = ec ! i)
            \<and> atomics (ec' ! unat n) (neighbor_namespace all) =
                 atomics (ec ! unat n) (neighbor_namespace all)
                   @ injected_edges all D n ec (adj D ! unat n)"
    by blast
next
  fix D' ec' assume "add_edge_features all D n ec = Inr (D', ec')"
  from add_edge_features_atomics [OF assms this]
  show "atomics (ec' ! unat n) (neighbor_namespace all) =
          atomics (ec ! unat n) (neighbor_namespace all) @ injected_edges all D n ec (adj D ! unat n)" .
next
  fix i and f :: feature assume "\<not> use_structure D"
  then show "injected D n (costs (ec ! i)) f = [(fst f, bucket D (snd f) 0)]"
    by (simp add: injected_def)
next
  fix i and f :: feature assume "use_structure D" "contributors n (costs (ec ! i)) = []"
  then show "injected D n (costs (ec ! i)) f = []" by (simp add: injected_def)
next
  fix i ci and f :: feature assume "use_structure D" "contributors n (costs (ec ! i)) = [ci]"
  then show "injected D n (costs (ec ! i)) f = [(fst f, bucket D (snd f) (label_bucket D ci))]"
    by (simp add: injected_def)
next
  fix i and f :: feature assume u: "use_structure D" and "2 \<le> length (contributors n (costs (ec ! i)))"
  then obtain c1 c2 rest where "contributors n (costs (ec ! i)) = c1 # c2 # rest"
    by (cases "contributors n (costs (ec ! i))"; cases "tl (contributors n (costs (ec ! i)))") auto
  with u show "injected D n (costs (ec ! i)) f =
                  map (\<lambda>k. (fmul (fst f) (real (hist_count D n (costs (ec ! i)) k)), bucket D (snd f) k))
                    (filter (\<lambda>k. hist_count D n (costs (ec ! i)) k \<noteq> 0) [0..<K D + 1])"
    by (simp add: injected_def del: upt_Suc)
next
  fix i k and f :: feature
  assume i: "i \<in> set (adj D ! unat n)" and f: "f \<in> set (foreach_feature all (ec ! i))"
    and u: "use_structure D" and k: "k \<in> {0..K D}"
  from assms i have "edge_ok all D n (ec ! i)" by (simp add: augmentable_def)
  with u f k have "float_finite (fst f * real (hist_count D n (costs (ec ! i)) k))"
    by (simp add: edge_ok_def)
  then show "\<bar>fmul (fst f) (real (hist_count D n (costs (ec ! i)) k))\<bar> \<le> float_max"
    unfolding fmul_def by (rule fl32_finite)
next
  fix i and f :: feature assume i: "i \<in> set (adj D ! unat n)" and u: "use_structure D"
    and two: "2 \<le> length (contributors n (costs (ec ! i)))"
    and ex: "\<forall>k\<in>{0..K D}. fmul (fst f) (real (hist_count D n (costs (ec ! i)) k))
                                  = fst f * real (hist_count D n (costs (ec ! i)) k)"
  from assms i have "edge_ok all D n (ec ! i)" by (simp add: augmentable_def)
  with u have "\<forall>ci\<in>set (contributors n (costs (ec ! i))). label_bucket D ci \<le> K D"
    by (auto simp: edge_ok_def label_bucket_def)
  from injected_group_sum [OF two this ex u]
  show "sum_list (map fst (injected D n (costs (ec ! i)) f))
                        = fst f * real (length (contributors n (costs (ec ! i))))" .
qed

lemmas augment_defs = augmentable_def edge_ok_def injected_edges_def injected_def contributors_def
  hist_count_def label_bucket_def push_all_def task_data_of_def hyperedge_episode_def
  six_labelled_nodes_def threshold_search_def float_finite_def loop_and_hyperedge_def
  no_structure_options_def

theorem neighbor_encoding_of_an_edge_witness:
  "augmentable (plain_vw [] True)
     ((task_data_of (setup_task (plain_vw [] True) (fst (initialize default_options 2))
         (hyperedge_episode 1 1)))\<lparr>pred := [1, 1, 1, 2, 2, 2]\<rparr>)
     0 (hyperedge_episode 1 1)
   \<and> use_structure ((task_data_of (setup_task (plain_vw [] True) (fst (initialize default_options 2))
         (hyperedge_episode 1 1)))\<lparr>pred := [1, 1, 1, 2, 2, 2]\<rparr>)
   \<and> contributors 0 [1, 2, 3, 4, 5, 6] = [2, 3, 4, 5, 6]
   \<and> injected
       ((task_data_of (setup_task (plain_vw [] True) (fst (initialize default_options 2))
         (hyperedge_episode 1 1)))\<lparr>pred := [1, 1, 1, 2, 2, 2]\<rparr>)
       0 [1, 2, 3, 4, 5, 6] (1, 9) = [(2, 9), (3, 5388)]
   \<and> sum_list (map fst (injected
       ((task_data_of (setup_task (plain_vw [] True) (fst (initialize default_options 2))
         (hyperedge_episode 1 1)))\<lparr>pred := [1, 1, 1, 2, 2, 2]\<rparr>)
       0 [1, 2, 3, 4, 5, 6] (1, 9))) = 1 * real (length (contributors 0 [1, 2, 3, 4, 5, 6]))"
  using neighbor_encoding_of_an_edge [of "plain_vw [] True"
      "(task_data_of (setup_task (plain_vw [] True) (fst (initialize default_options 2))
         (hyperedge_episode 1 1)))\<lparr>pred := [1, 1, 1, 2, 2, 2]\<rparr>" 0 "hyperedge_episode 1 1"]
  apply (simp add: setup_defs episode_defs augment_defs eval_simps)
  apply (simp add: bucket_def)
  done

text \<open>
  Claim C5 as stated does not hold of what the code injects. First, with structure: the
  edge joins six nodes and has one feature, of the value \<open>1 + 2 ^ -23\<close>. In the second
  pass node 0 is predicted last; of the five other endpoints two have the prediction 1
  and three the prediction 2. The features injected for node 0 have the values
  \<open>2 * (1 + 2 ^ -23)\<close> and \<open>3 + 2 ^ -21\<close>, the product by 3 rounded; their sum is not five
  times the value of the feature, whether the sum and the product by 5 are exact or
  rounded. Second, without structure: for the first of three nodes, the edge record
  that names only this node has no contributing neighbor and the edge that joins the
  three nodes has two, and for each of them the feature is injected once, with its value
  unchanged, at the bucket of \<open>k = 0\<close>.
\<close>

theorem injected_values_do_not_sum_to_the_product:
  "(\<exists>D D' ec' reqs.
     setup_task (plain_vw [] True) (fst (initialize default_options 2))
       (hyperedge_episode (8388609 / 8388608) (4194305 / 4194304)) = Inr D
     \<and> run_passes (plain_vw [] True) threshold_search D
         (hyperedge_episode (8388609 / 8388608) (4194305 / 4194304)) = Inr (D', ec', reqs)
     \<and> map tag reqs = [1, 2, 3, 4, 5, 6, 6, 5, 4, 3, 2, 1]
     \<and> adj D ! 0 = [6]
     \<and> foreach_feature (plain_vw [] True)
          (hyperedge_episode (8388609 / 8388608) (4194305 / 4194304) ! 6) = [(8388609 / 8388608, 9)]
     \<and> contributors 0 (costs (hyperedge_episode (8388609 / 8388608) (4194305 / 4194304) ! 6))
          = [2, 3, 4, 5, 6]
     \<and> atomics (input_example (reqs ! 11)) 131 = [(8388609 / 4194304, 9), (6291457 / 2097152, 5388)]
     \<and> 8388609 / 4194304 + 6291457 / 2097152 \<noteq> (8388609 / 8388608) * (5::real)
     \<and> 8388609 / 4194304 + 6291457 / 2097152 \<noteq> fmul (8388609 / 8388608) 5
     \<and> fadd (8388609 / 4194304) (6291457 / 2097152) \<noteq> (8388609 / 8388608) * 5
     \<and> fadd (8388609 / 4194304) (6291457 / 2097152) \<noteq> fmul (8388609 / 8388608) 5)
   \<and> (\<exists>D D1 ec1.
     setup_task (plain_vw [] True) (fst (initialize no_structure_options 2)) loop_and_hyperedge = Inr D
     \<and> \<not> use_structure D \<and> adj D ! 0 = [3, 4] \<and> pred D = [3, 3, 3]
     \<and> contributors 0 (costs (loop_and_hyperedge ! 3)) = []
     \<and> contributors 0 (costs (loop_and_hyperedge ! 4)) = [2, 3]
     \<and> foreach_feature (plain_vw [] True) (loop_and_hyperedge ! 3) = [(1, 9)]
     \<and> foreach_feature (plain_vw [] True) (loop_and_hyperedge ! 4) = [(1, 18)]
     \<and> add_edge_features (plain_vw [] True) D 0 loop_and_hyperedge = Inr (D1, ec1)
     \<and> atomics (ec1 ! 0) 131 = [(1, 9), (1, 18)])"
  apply (simp add: setup_defs episode_defs augment_defs eval_simps)
  apply (simp add: pass_defs episode_defs augment_defs eval_simps fl32_double_next_after_one
      fl32_triple_next_after_one fl32_sum_of_injected fl32_five_next_after_one)
  done

end
